theory Spec2Isabelle
  imports Complex_Main
begin

section \<open>The JavaScript \<open>Map\<close> of \<open>LRUCache\<close>\<close>

text \<open>
  A JavaScript \<open>Map\<close> iterates its keys in insertion order, \<open>Map.set\<close> on a key that is
  already present replaces the value and keeps the key's position, and \<open>Map.delete\<close>
  removes the key. The model is an association list in iteration order.
\<close>

fun Map_get :: "('k \<times> 'v) list \<Rightarrow> 'k \<Rightarrow> 'v option" where
  "Map_get [] k = None"
| "Map_get ((k', v) # m) k = (if k' = k then Some v else Map_get m k)"

definition Map_delete :: "'k \<Rightarrow> ('k \<times> 'v) list \<Rightarrow> ('k \<times> 'v) list" where
  "Map_delete k m = filter (\<lambda>p. fst p \<noteq> k) m"

fun Map_set :: "'k \<Rightarrow> 'v \<Rightarrow> ('k \<times> 'v) list \<Rightarrow> ('k \<times> 'v) list" where
  "Map_set k v [] = [(k, v)]"
| "Map_set k v ((k', v') # m) =
     (if k' = k then (k, v) # m else (k', v') # Map_set k v m)"

section \<open>\<open>LRUCache\<close> (cache.js)\<close>

text \<open>
  A stored value is any JavaScript value; \<open>None\<close> stands for \<open>null\<close>, which is also what
  \<open>get\<close> returns for "not found". \<open>Date.now()\<close> is the argument \<open>now\<close> of each
  operation (milliseconds); the bodies are synchronous.

  The constructor stores its argument \<open>maxSize\<close> as it is, and \<open>set\<close> compares the size of
  the map with it by \<open>>=\<close>. The argument is a JavaScript number: a finite one, which
  need not be an integer or positive, or \<open>NaN\<close>, \<open>Infinity\<close> or \<open>-Infinity\<close>. A comparison
  with \<open>NaN\<close> is false.
\<close>

datatype js_number = Num rat | NaN | PlusInfinity | MinusInfinity

text \<open>\<open>size >= maxSize\<close>, for the size of a map.\<close>

fun size_ge :: "nat \<Rightarrow> js_number \<Rightarrow> bool" where
  "size_ge n (Num q) \<longleftrightarrow> of_nat n \<ge> q"
| "size_ge n NaN \<longleftrightarrow> False"
| "size_ge n PlusInfinity \<longleftrightarrow> False"
| "size_ge n MinusInfinity \<longleftrightarrow> True"

record 'v CacheEntry =
  entry_value :: "'v option"
  expiry :: int
  timestamp :: int

record 'v LRUCache =
  cache :: "(string \<times> 'v CacheEntry) list"
  maxSize :: js_number
  ttl :: int
  hits :: nat
  misses :: nat
  cachedSize :: "int option"
  cacheSizeTimestamp :: "int option"

definition new_LRUCache :: "js_number \<Rightarrow> int \<Rightarrow> 'v LRUCache" where
  "new_LRUCache maxSize' ttlMinutes =
     \<lparr>cache = [], maxSize = maxSize', ttl = ttlMinutes * 60 * 1000,
      hits = 0, misses = 0, cachedSize = None, cacheSizeTimestamp = None\<rparr>"

definition get :: "'v LRUCache \<Rightarrow> string \<Rightarrow> int \<Rightarrow> 'v option \<times> 'v LRUCache" where
  "get c key now =
     (case Map_get (cache c) key of
        None \<Rightarrow> (None, c\<lparr>misses := misses c + 1\<rparr>)
      | Some item \<Rightarrow>
          if now > expiry item
          then (None, c\<lparr>cache := Map_delete key (cache c), misses := misses c + 1\<rparr>)
          else (entry_value item,
                c\<lparr>cache := Map_set key item (Map_delete key (cache c)),
                  hits := hits c + 1\<rparr>))"

text \<open>
  \<open>set\<close>: \<open>this.cache.keys().next().value\<close> is the first key in iteration order, and
  \<open>undefined\<close> on an empty map, where the \<open>delete\<close> then removes nothing.
\<close>

definition set_entry :: "'v LRUCache \<Rightarrow> string \<Rightarrow> 'v option \<Rightarrow> int \<Rightarrow> 'v LRUCache" where
  "set_entry c key v now =
     (let m = (if size_ge (length (cache c)) (maxSize c)
               then (case cache c of
                       [] \<Rightarrow> []
                     | (firstKey, _) # _ \<Rightarrow> Map_delete firstKey (cache c))
               else cache c)
      in c\<lparr>cache := Map_set key
                        \<lparr>entry_value = v, expiry = now + ttl c, timestamp = now\<rparr> m\<rparr>)"

definition has :: "'v LRUCache \<Rightarrow> string \<Rightarrow> int \<Rightarrow> bool \<times> 'v LRUCache" where
  "has c key now = (case get c key now of (v, c') \<Rightarrow> (v \<noteq> None, c'))"

definition delete :: "'v LRUCache \<Rightarrow> string \<Rightarrow> 'v LRUCache" where
  "delete c key = c\<lparr>cache := Map_delete key (cache c)\<rparr>"

definition clear :: "'v LRUCache \<Rightarrow> 'v LRUCache" where
  "clear c = c\<lparr>cache := [], hits := 0, misses := 0\<rparr>"

definition keys :: "'v LRUCache \<Rightarrow> string list" where
  "keys c = map fst (cache c)"

subsection \<open>JavaScript numbers in \<open>getStats\<close> and \<open>getSizeBytes\<close>\<close>

text \<open>
  A JavaScript number is an IEEE 754 binary64 value. The numbers that occur here are
  finite and, when not zero, of magnitude between \<open>2\<^sup>-\<^sup>1\<^sup>0\<^sup>2\<^sup>2\<close> and \<open>2\<^sup>1\<^sup>0\<^sup>2\<^sup>4\<close> (counters and
  sizes below \<open>2\<^sup>5\<^sup>3\<close> and their quotients), so each is a rational with a 53-bit
  significand, and an arithmetic operation is the exact operation followed by rounding
  to the nearest such rational, ties to the even significand (\<open>fl64\<close>).
\<close>

definition pow2 :: "int \<Rightarrow> rat" where
  "pow2 e = (if e \<ge> 0 then 2 ^ nat e else 1 / 2 ^ nat (- e))"

function bitlen :: "int \<Rightarrow> int" where
  "bitlen n = (if n \<le> 0 then 0 else 1 + bitlen (n div 2))"
  by pat_completeness auto
termination
  by (relation "measure nat") auto

declare bitlen.simps [simp del]

text \<open>\<open>ilog2 q\<close> is the exponent \<open>e\<close> with \<open>2\<^sup>e \<le> q < 2\<^sup>e\<^sup>+\<^sup>1\<close>, for \<open>q > 0\<close>.\<close>

definition ilog2 :: "rat \<Rightarrow> int" where
  "ilog2 q =
     (case quotient_of q of (a, b) \<Rightarrow>
        (let d = bitlen a - bitlen b
         in if pow2 d \<le> q then d else d - 1))"

definition round_ties_even :: "rat \<Rightarrow> int" where
  "round_ties_even x =
     (let f = \<lfloor>x\<rfloor>; d = x - of_int f
      in if d < 1 / 2 then f
         else if d > 1 / 2 then f + 1
         else if even f then f else f + 1)"

definition fl64 :: "rat \<Rightarrow> rat" where
  "fl64 q =
     (if q = 0 then 0
      else (let u = pow2 (ilog2 \<bar>q\<bar> - 52)
            in of_int (round_ties_even (q / u)) * u))"

definition js_div :: "rat \<Rightarrow> rat \<Rightarrow> rat" where
  "js_div x y = fl64 (x / y)"

definition js_mul :: "rat \<Rightarrow> rat \<Rightarrow> rat" where
  "js_mul x y = fl64 (x * y)"

definition js_add :: "rat \<Rightarrow> rat \<Rightarrow> rat" where
  "js_add x y = fl64 (x + y)"

text \<open>\<open>Math.round\<close>: the nearest integer, the larger one on a tie.\<close>

definition Math_round :: "rat \<Rightarrow> int" where
  "Math_round x = \<lfloor>x + 1 / 2\<rfloor>"

definition digit :: "int \<Rightarrow> char" where
  "digit d = ''0123456789'' ! nat (d mod 10)"

function dec :: "int \<Rightarrow> string" where
  "dec n = (if n < 10 then [digit n] else dec (n div 10) @ [digit (n mod 10)])"
  by pat_completeness auto
termination
  by (relation "measure nat") auto

declare dec.simps [simp del]

text \<open>
  \<open>Number.prototype.toFixed(2)\<close> for \<open>0 \<le> x < 10\<^sup>2\<^sup>1\<close>: with \<open>n\<close> the integer for which
  \<open>n / 100 - x\<close> is closest to zero (the larger \<open>n\<close> if there are two), the digits of
  \<open>n\<close> with a point before the last two (\<open>fixed2 n\<close>).
\<close>

definition fixed2 :: "int \<Rightarrow> string" where
  "fixed2 n = dec (n div 100) @ ''.'' @ [digit (n div 10), digit n]"

definition toFixed2 :: "rat \<Rightarrow> string" where
  "toFixed2 x = fixed2 \<lfloor>x * 100 + 1 / 2\<rfloor>"

record CacheStats =
  st_size :: nat
  st_maxSize :: js_number
  st_hits :: nat
  st_misses :: nat
  hitRate :: string

definition getStats :: "'v LRUCache \<Rightarrow> CacheStats" where
  "getStats c =
     (let total = hits c + misses c;
          hitRate' = (if total > 0
                      then toFixed2 (js_mul (js_div (of_nat (hits c)) (of_nat total)) 100)
                      else ''0.00'')
      in \<lparr>st_size = length (cache c), st_maxSize = maxSize c,
          st_hits = hits c, st_misses = misses c, hitRate = hitRate' @ ''%''\<rparr>)"

subsection \<open>\<open>getSizeBytes\<close>, in its two versions\<close>

datatype js_error = Err (err_name: string) (err_message: string)

text \<open>
  \<open>JSON.stringify\<close> belongs to the host. On a stored value it throws (a value with a
  circular reference, a BigInt), or returns \<open>undefined\<close> (for \<open>undefined\<close> or a function),
  or returns a string. The parameter \<open>stringify\<close> gives that outcome for each value:
  \<open>Inl e\<close>, \<open>Inr None\<close>, \<open>Inr (Some s)\<close>. Reading \<open>.length\<close> of \<open>undefined\<close> throws a
  TypeError.
\<close>

type_synonym 'v stringify = "'v option \<Rightarrow> js_error + string option"

definition stringify_length :: "'v stringify \<Rightarrow> 'v option \<Rightarrow> js_error + nat" where
  "stringify_length stringify v =
     (case stringify v of
        Inl e \<Rightarrow> Inl e
      | Inr None \<Rightarrow>
          Inl (Err ''TypeError'' ''Cannot read properties of undefined (reading 'length')'')
      | Inr (Some s) \<Rightarrow> Inr (length s))"

text \<open>The first version: no \<open>try\<close> around \<open>JSON.stringify\<close>.\<close>

fun getSizeBytes_loop ::
  "'v stringify \<Rightarrow> (string \<times> 'v CacheEntry) list \<Rightarrow> nat \<Rightarrow> js_error + nat" where
  "getSizeBytes_loop stringify [] size' = Inr size'"
| "getSizeBytes_loop stringify ((key, item) # rest) size' =
     (case stringify_length stringify (entry_value item) of
        Inl e \<Rightarrow> Inl e
      | Inr n \<Rightarrow> getSizeBytes_loop stringify rest (size' + length key * 2 + n * 2))"

definition getSizeBytes :: "'v stringify \<Rightarrow> 'v LRUCache \<Rightarrow> js_error + nat" where
  "getSizeBytes stringify c = getSizeBytes_loop stringify (cache c) 0"

text \<open>
  The second version: the result is kept for a minute, the first ten entries are
  measured, with 1000 for an entry whose \<open>JSON.stringify\<close> throws, and the rest is
  extrapolated from their average.
\<close>

definition maxSampleSize :: nat where
  "maxSampleSize = 10"

fun sampled_loop ::
  "'v stringify \<Rightarrow> nat \<Rightarrow> (string \<times> 'v CacheEntry) list \<Rightarrow> rat \<Rightarrow> nat \<Rightarrow> rat" where
  "sampled_loop stringify n [] size' count = size'"
| "sampled_loop stringify n ((key, item) # rest) size' count =
     (if count < maxSampleSize
      then (let size1 = js_add size' (of_nat (length key * 2));
                size2 = (case stringify_length stringify (entry_value item) of
                           Inr l \<Rightarrow> js_add size1 (of_nat (l * 2))
                         | Inl e \<Rightarrow> js_add size1 1000)
            in sampled_loop stringify n rest size2 (count + 1))
      else (let avgSize = js_div size' (of_nat count)
            in js_add size' (js_mul avgSize (of_int (int n - int count)))))"

text \<open>
  \<open>this._cachedSize && this._cacheSizeTimestamp > Date.now() - 60000\<close>: both fields are
  \<open>undefined\<close> until the first computation, and a kept size of 0 is falsy.
\<close>

definition kept_size :: "'v LRUCache \<Rightarrow> int \<Rightarrow> int option" where
  "kept_size c now =
     (case (cachedSize c, cacheSizeTimestamp c) of
        (Some s, Some t) \<Rightarrow> if s \<noteq> 0 \<and> t > now - 60000 then Some s else None
      | _ \<Rightarrow> None)"

definition getSizeBytes_sampled :: "'v stringify \<Rightarrow> 'v LRUCache \<Rightarrow> int \<Rightarrow> int \<times> 'v LRUCache" where
  "getSizeBytes_sampled stringify c now =
     (case kept_size c now of
        Some s \<Rightarrow> (s, c)
      | None \<Rightarrow>
          (let size' = Math_round (sampled_loop stringify (length (cache c)) (cache c) 0 0)
           in (size', c\<lparr>cachedSize := Some size', cacheSizeTimestamp := Some now\<rparr>)))"

subsection \<open>Sequences of cache operations\<close>

datatype 'v cache_op =
    OpGet string int
  | OpSet string "'v option" int
  | OpHas string int
  | OpDelete string
  | OpClear

fun apply_op :: "'v LRUCache \<Rightarrow> 'v cache_op \<Rightarrow> 'v LRUCache" where
  "apply_op c (OpGet key now) = snd (get c key now)"
| "apply_op c (OpSet key v now) = set_entry c key v now"
| "apply_op c (OpHas key now) = snd (has c key now)"
| "apply_op c (OpDelete key) = delete c key"
| "apply_op c OpClear = clear c"

definition run_ops :: "'v LRUCache \<Rightarrow> 'v cache_op list \<Rightarrow> 'v LRUCache" where
  "run_ops c ops = foldl apply_op c ops"

text \<open>
  The number of \<open>get\<close> and \<open>has\<close> calls in a sequence that come after its last \<open>clear\<close>,
  added to \<open>n\<close> when the sequence has no \<open>clear\<close>.
\<close>

fun calls_since_clear :: "nat \<Rightarrow> 'v cache_op list \<Rightarrow> nat" where
  "calls_since_clear n [] = n"
| "calls_since_clear n (OpGet key now # ops) = calls_since_clear (n + 1) ops"
| "calls_since_clear n (OpHas key now # ops) = calls_since_clear (n + 1) ops"
| "calls_since_clear n (OpSet key v now # ops) = calls_since_clear n ops"
| "calls_since_clear n (OpDelete key # ops) = calls_since_clear n ops"
| "calls_since_clear n (OpClear # ops) = calls_since_clear 0 ops"

subsection \<open>Reading a printed percentage\<close>

text \<open>
  A percentage with two decimals is written as one or more decimal digits, a zero in
  front only when it is the one digit, then a point, two decimal digits and a percent
  sign, as in \<open>66.67%\<close>. For a string of this form \<open>hundredths\<close> gives the number of
  hundredths of a percent that it denotes (6667 for \<open>66.67%\<close>), and \<open>None\<close> for any other
  string. This is how the \<open>hitRate\<close> of the statistics is read; the definition is written
  from the format that the specification states for \<open>hitRate\<close>, not from the code that
  prints it.
\<close>

definition is_decimal_digit :: "char \<Rightarrow> bool" where
  "is_decimal_digit c \<longleftrightarrow> 48 \<le> (of_char c :: nat) \<and> (of_char c :: nat) \<le> 57"

definition digits_value :: "string \<Rightarrow> nat" where
  "digits_value ds = foldl (\<lambda>acc c. 10 * acc + (of_char c - 48)) 0 ds"

definition hundredths :: "string \<Rightarrow> nat option" where
  "hundredths s =
     (let whole = takeWhile is_decimal_digit s; rest = dropWhile is_decimal_digit s
      in case rest of
           [point, d1, d2, percent] \<Rightarrow>
             if point = CHR ''.'' \<and> percent = CHR ''%'' \<and>
                is_decimal_digit d1 \<and> is_decimal_digit d2 \<and>
                whole \<noteq> [] \<and> (length whole = 1 \<or> hd whole \<noteq> CHR ''0'')
             then Some (digits_value (whole @ [d1, d2]))
             else None
         | _ \<Rightarrow> None)"

section \<open>Configuration constants (config.js)\<close>

definition CACHE_MAX_SIZE :: js_number where "CACHE_MAX_SIZE = Num 100"
definition CACHE_TTL_MINUTES :: int where "CACHE_TTL_MINUTES = 60"
definition MAX_REQUESTS_PER_HOUR :: nat where "MAX_REQUESTS_PER_HOUR = 100"
definition RATE_LIMIT_WINDOW_MS :: int where "RATE_LIMIT_WINDOW_MS = 60 * 60 * 1000"
definition MAX_RETRY_ATTEMPTS :: nat where "MAX_RETRY_ATTEMPTS = 3"
definition INITIAL_RETRY_DELAY_MS :: int where "INITIAL_RETRY_DELAY_MS = 1000"
definition MAX_RETRY_DELAY_MS :: int where "MAX_RETRY_DELAY_MS = 10000"
definition OMDB_BASE_URL :: string where "OMDB_BASE_URL = ''https://www.omdbapi.com/''"
definition ENABLE_CACHE :: bool where "ENABLE_CACHE = True"
definition ENABLE_RATE_LIMITING :: bool where "ENABLE_RATE_LIMITING = True"

section \<open>\<open>RateLimiter\<close> (rate-limiter.js)\<close>

text \<open>
  The calls of the global \<open>logger\<close> made by the rate limiter are kept, in order, in the
  field \<open>logger\<close>. \<open>Date.now()\<close> is the argument \<open>now\<close>, a whole number of milliseconds.
  \<open>maxRequests\<close> is a number of requests, a natural number, and \<open>windowMs\<close> a whole number
  of milliseconds, of either sign.
\<close>

datatype log_entry =
    ArrayCapped nat nat
  | RateLimitReached nat nat "int option"
  | RecursionDepthExceeded nat

record RateLimiter =
  maxRequests :: nat
  windowMs :: int
  requests :: "int list"
  logger :: "log_entry list"

definition new_RateLimiter :: "nat \<Rightarrow> int \<Rightarrow> RateLimiter" where
  "new_RateLimiter maxRequests' windowMs' =
     \<lparr>maxRequests = maxRequests', windowMs = windowMs', requests = [], logger = []\<rparr>"

definition cleanupExpired :: "RateLimiter \<Rightarrow> int \<Rightarrow> RateLimiter" where
  "cleanupExpired r now =
     r\<lparr>requests := filter (\<lambda>time. now - time < windowMs r) (requests r)\<rparr>"

text \<open>\<open>xs.slice(-n)\<close>: the last \<open>n\<close> elements; \<open>slice(-0)\<close> is \<open>slice(0)\<close>, the whole array.\<close>

definition slice_last :: "nat \<Rightarrow> 'a list \<Rightarrow> 'a list" where
  "slice_last n xs = (if n = 0 then xs else drop (length xs - n) xs)"

definition cleanup :: "RateLimiter \<Rightarrow> int \<Rightarrow> RateLimiter" where
  "cleanup r now =
     (let r1 = cleanupExpired r now
      in if length (requests r1) > maxRequests r1 * 10
         then (let r2 = r1\<lparr>requests := slice_last (maxRequests r1) (requests r1)\<rparr>
               in r2\<lparr>logger := logger r2 @
                        [ArrayCapped (length (requests r2)) (maxRequests r2)]\<rparr>)
         else r1)"

text \<open>
  \<open>await new Promise(resolve => setTimeout(resolve, d))\<close> resumes the caller once the
  timer has fired. The host keeps the delay of a timer as a 32-bit signed integer: a
  delay \<open>d\<close> from 0 to \<open>2\<^sup>3\<^sup>1 - 1 = 2147483647\<close> milliseconds is waited for, and a delay
  that is negative, \<open>NaN\<close> (written \<open>None\<close>) or larger than that is not: the timer fires
  at once (a browser wraps the number around, Node.js replaces it by 1 millisecond).
  \<open>timer_delay d\<close> is the time that the timer is sure to wait, and the host adds
  whatever it adds. \<open>acquire\<close> takes the host's share as \<open>late\<close>, one number of
  milliseconds for each recursion depth, and returns the time at which it completes
  and the delays it waited for. The clock does not advance inside a synchronous
  stretch of code.
\<close>

definition TIMEOUT_MAX :: int where
  "TIMEOUT_MAX = 2147483647"

definition timer_delay :: "int option \<Rightarrow> int" where
  "timer_delay d =
     (case d of
        None \<Rightarrow> 0
      | Some ms \<Rightarrow> if 0 \<le> ms \<and> ms \<le> TIMEOUT_MAX then ms else 0)"

definition MAX_RECURSION_DEPTH :: nat where
  "MAX_RECURSION_DEPTH = 10"

text \<open>\<open>this.requests[0]\<close> is \<open>undefined\<close> on an empty array, and the wait is then \<open>NaN\<close>.\<close>

definition waitTime_of :: "RateLimiter \<Rightarrow> int \<Rightarrow> int option" where
  "waitTime_of r now =
     (case requests r of
        [] \<Rightarrow> None
      | oldestRequest # _ \<Rightarrow> Some (windowMs r - (now - oldestRequest)))"

text \<open>
  One synchronous stretch of \<open>acquire(depth)\<close>, from its start or from its resumption
  after a timer up to the point where it returns, throws, or awaits its timer.
\<close>

datatype acquire_step = Acquired | Failed js_error | Suspended "int option"

definition acquire_stretch :: "RateLimiter \<Rightarrow> nat \<Rightarrow> int \<Rightarrow> acquire_step \<times> RateLimiter" where
  "acquire_stretch r depth now =
     (if depth \<ge> MAX_RECURSION_DEPTH
      then (Failed (Err ''Error''
                     ''Rate limiter recursion limit exceeded - possible DoS attempt or timing issue''),
            r\<lparr>logger := logger r @ [RecursionDepthExceeded depth]\<rparr>)
      else if \<not> ENABLE_RATE_LIMITING then (Acquired, r)
      else (let r1 = cleanup r now
            in if length (requests r1) \<ge> maxRequests r1
               then (let waitTime = waitTime_of r1 now
                     in (Suspended waitTime,
                         r1\<lparr>logger := logger r1 @
                              [RateLimitReached (length (requests r1)) (maxRequests r1)
                                 waitTime]\<rparr>))
               else (Acquired, r1\<lparr>requests := requests r1 @ [now]\<rparr>)))"

text \<open>
  The whole call, when nothing else runs while it waits: stretch after stretch, the
  next one at depth \<open>depth + 1\<close> once the timer has fired.
\<close>

function acquire ::
  "RateLimiter \<Rightarrow> (nat \<Rightarrow> nat) \<Rightarrow> nat \<Rightarrow> int
     \<Rightarrow> (js_error + unit) \<times> RateLimiter \<times> int \<times> int option list" where
  "acquire r late depth now =
     (case acquire_stretch r depth now of
        (Acquired, r') \<Rightarrow> (Inr (), r', now, [])
      | (Failed error, r') \<Rightarrow> (Inl error, r', now, [])
      | (Suspended waitTime, r') \<Rightarrow>
          (case acquire r' late (depth + 1) (now + timer_delay waitTime + int (late depth)) of
             (res, r3, now', waits) \<Rightarrow> (res, r3, now', waitTime # waits)))"
  by pat_completeness auto
termination
  by (relation "measure (\<lambda>(r, late, depth, now). MAX_RECURSION_DEPTH - depth)")
    (auto simp: acquire_stretch_def Let_def split: if_splits)

declare acquire.simps [simp del]

definition canRequest :: "RateLimiter \<Rightarrow> int \<Rightarrow> bool \<times> RateLimiter" where
  "canRequest r now =
     (let r1 = cleanupExpired r now
      in (length (requests r1) < maxRequests r1, r1))"

record RateLimitStatus =
  remaining :: int
  total :: nat
  resetIn :: int
  window :: int

definition getStatus :: "RateLimiter \<Rightarrow> int \<Rightarrow> RateLimitStatus \<times> RateLimiter" where
  "getStatus r now =
     (let r1 = cleanupExpired r now
      in (\<lparr>remaining = max 0 (int (maxRequests r1) - int (length (requests r1))),
           total = maxRequests r1,
           resetIn = (case requests r1 of
                        [] \<Rightarrow> 0
                      | oldest # _ \<Rightarrow> windowMs r1 - (now - oldest)),
           window = windowMs r1\<rparr>, r1))"

definition reset :: "RateLimiter \<Rightarrow> RateLimiter" where
  "reset r = r\<lparr>requests := []\<rparr>"

subsection \<open>Sequences of rate limiter operations\<close>

text \<open>
  Each operation carries the time at which it is called; an \<open>acquire\<close> also carries the
  lateness of its timers. \<open>OpAcquireStretch depth now\<close> is a single stretch of an
  \<open>acquire\<close> call, so that a sequence can also run other operations, and the stretches
  of other calls, between the stretches of one call.
\<close>

datatype limiter_op =
    OpAcquire "nat \<Rightarrow> nat" int
  | OpAcquireStretch nat int
  | OpCleanup int
  | OpCanRequest int
  | OpGetStatus int
  | OpReset

fun apply_limiter_op :: "RateLimiter \<Rightarrow> limiter_op \<Rightarrow> RateLimiter" where
  "apply_limiter_op r (OpAcquire late now) = fst (snd (acquire r late 0 now))"
| "apply_limiter_op r (OpAcquireStretch depth now) = snd (acquire_stretch r depth now)"
| "apply_limiter_op r (OpCleanup now) = cleanup r now"
| "apply_limiter_op r (OpCanRequest now) = snd (canRequest r now)"
| "apply_limiter_op r (OpGetStatus now) = snd (getStatus r now)"
| "apply_limiter_op r OpReset = reset r"

definition run_limiter :: "RateLimiter \<Rightarrow> limiter_op list \<Rightarrow> RateLimiter" where
  "run_limiter r ops = foldl apply_limiter_op r ops"

fun is_ArrayCapped :: "log_entry \<Rightarrow> bool" where
  "is_ArrayCapped (ArrayCapped original capped) = True"
| "is_ArrayCapped (RateLimitReached n m w) = False"
| "is_ArrayCapped (RecursionDepthExceeded depth) = False"

text \<open>
  \<open>acquire\<close> calls issued one after the other: each call is made \<open>gap\<close> milliseconds
  after the previous one has completed (0 for a call that follows at once), and the
  result lists, for each call, its outcome and the time at which it completed.
\<close>

fun acquire_seq ::
  "RateLimiter \<Rightarrow> int \<Rightarrow> (nat \<times> (nat \<Rightarrow> nat)) list
     \<Rightarrow> ((js_error + unit) \<times> int) list \<times> RateLimiter \<times> int" where
  "acquire_seq r now [] = ([], r, now)"
| "acquire_seq r now ((gap, late) # calls) =
     (case acquire r late 0 (now + int gap) of
        (res, r', now', waits) \<Rightarrow>
          (case acquire_seq r' now' calls of
             (rs, r'', now'') \<Rightarrow> ((res, now') # rs, r'', now'')))"

text \<open>
  What holds of the recorded timestamps \<open>xs\<close> at time \<open>now\<close>, after \<open>k\<close> calls of which the
  first was recorded at \<open>t1\<close>: either the window that began at \<open>t1\<close> is over, or the
  \<open>k\<close> timestamps of these calls are the last \<open>k\<close> entries of the list.
\<close>

definition window_inv :: "int \<Rightarrow> int \<Rightarrow> nat \<Rightarrow> int list \<Rightarrow> int \<Rightarrow> bool" where
  "window_inv W t1 k xs now \<longleftrightarrow>
     t1 \<le> now \<and>
     (t1 + W \<le> now \<or>
      (\<exists>A B. xs = A @ B \<and> length B = k \<and> B \<noteq> [] \<and> hd B = t1 \<and> (\<forall>t \<in> set B. t1 \<le> t)))"

section \<open>Strings and regular expressions of the host\<close>

text \<open>
  A string is a list of characters (code units below 256). The regular expressions of
  the program use literal characters, \<open>\d\<close>, \<open>.\<close>, a character class, greedy repetition
  of one of these, and one capture group; \<open>Regex ic pre grp post\<close> stands for
  \<open>/pre(grp)post/\<close>, with the flag \<open>i\<close> when \<open>ic\<close> holds.
\<close>

definition is_digit :: "char \<Rightarrow> bool" where
  "is_digit c \<longleftrightarrow> 48 \<le> (of_char c :: nat) \<and> (of_char c :: nat) \<le> 57"

definition to_lower :: "char \<Rightarrow> char" where
  "to_lower c =
     (if 65 \<le> (of_char c :: nat) \<and> (of_char c :: nat) \<le> 90
      then char_of (of_char c + 32 :: nat) else c)"

definition apostrophe :: char where
  "apostrophe = CHR 0x27"

datatype atom = Lit char | Digit | Dot | OneOf string

fun amatch :: "bool \<Rightarrow> atom \<Rightarrow> char \<Rightarrow> bool" where
  "amatch ic (Lit a) c = (if ic then to_lower a = to_lower c else a = c)"
| "amatch ic Digit c = is_digit c"
| "amatch ic Dot c = (c \<noteq> CHR 0x0A \<and> c \<noteq> CHR 0x0D)"
| "amatch ic (OneOf cs) c = (c \<in> set cs)"

datatype piece = One atom | Rep atom nat "nat option"

definition lits :: "string \<Rightarrow> piece list" where
  "lits s = map (\<lambda>c. One (Lit c)) s"

text \<open>
  \<open>matches ic ps s\<close> lists what is left of \<open>s\<close> after each way of matching \<open>ps\<close> at its
  start, in the order in which a backtracking matcher tries them: a repetition takes
  as many characters as it can first.
\<close>

fun matches :: "bool \<Rightarrow> piece list \<Rightarrow> string \<Rightarrow> string list" where
  "matches ic [] s = [s]"
| "matches ic (One a # ps) [] = []"
| "matches ic (One a # ps) (c # cs) = (if amatch ic a c then matches ic ps cs else [])"
| "matches ic (Rep a lo hi # ps) s =
     (case s of
        [] \<Rightarrow> []
      | c # cs \<Rightarrow>
          if hi \<noteq> Some 0 \<and> amatch ic a c
          then matches ic (Rep a (lo - 1) (map_option (\<lambda>h. h - 1) hi) # ps) cs
          else [])
     @ (if lo = 0 then matches ic ps s else [])"

datatype regex = Regex bool "piece list" "piece list" "piece list"

text \<open>The capture group of the first way of matching the expression at the start of \<open>s\<close>.\<close>

fun match_here :: "regex \<Rightarrow> string \<Rightarrow> string option" where
  "match_here (Regex ic pre grp post) s =
     (case concat (map (\<lambda>r1.
             concat (map (\<lambda>r2.
                map (\<lambda>r3. take (length r1 - length r2) r1) (matches ic post r2))
             (matches ic grp r1)))
           (matches ic pre s)) of
        [] \<Rightarrow> None
      | captured # _ \<Rightarrow> Some captured)"

text \<open>\<open>s.match(re)[1]\<close> for an expression without the flag \<open>g\<close>: the leftmost match.\<close>

fun match1 :: "regex \<Rightarrow> string \<Rightarrow> string option" where
  "match1 re [] = match_here re []"
| "match1 re (c # cs) =
     (case match_here re (c # cs) of
        Some captured \<Rightarrow> Some captured
      | None \<Rightarrow> match1 re cs)"

text \<open>\<open>/^ps$/.test(s)\<close>, or with the flag \<open>i\<close>.\<close>

definition test_full :: "bool \<Rightarrow> piece list \<Rightarrow> string \<Rightarrow> bool" where
  "test_full ic ps s \<longleftrightarrow> [] \<in> set (matches ic ps s)"

text \<open>\<open>CONFIG.PATTERNS.IMDB_ID\<close> is \<open>/^tt\d{7,8}$/\<close>, \<open>CONFIG.PATTERNS.YEAR\<close> is \<open>/^(19|20)\d{2}$/\<close>.\<close>

definition IMDB_ID_test :: "string \<Rightarrow> bool" where
  "IMDB_ID_test s = test_full False (lits ''tt'' @ [Rep Digit 7 (Some 8)]) s"

definition YEAR_test :: "string \<Rightarrow> bool" where
  "YEAR_test s \<longleftrightarrow>
     test_full False (lits ''19'' @ [Rep Digit 2 (Some 2)]) s \<or>
     test_full False (lits ''20'' @ [Rep Digit 2 (Some 2)]) s"

text \<open>
  The white space that \<open>String.prototype.trim\<close> and \<open>parseInt\<close> skip, among the code units
  below 256: tab, line feed, vertical tab, form feed, carriage return, space and the
  no-break space.
\<close>

definition is_space :: "char \<Rightarrow> bool" where
  "is_space c \<longleftrightarrow> (of_char c :: nat) \<in> {9, 10, 11, 12, 13, 32, 160}"

definition trim :: "string \<Rightarrow> string" where
  "trim s = rev (dropWhile is_space (rev (dropWhile is_space s)))"

definition dec_value :: "string \<Rightarrow> int" where
  "dec_value ds = foldl (\<lambda>acc c. acc * 10 + (int (of_char c) - 48)) 0 ds"

definition is_hex :: "char \<Rightarrow> bool" where
  "is_hex c \<longleftrightarrow> is_digit c \<or> 97 \<le> (of_char (to_lower c) :: nat) \<and> (of_char (to_lower c) :: nat) \<le> 102"

definition hex_value :: "string \<Rightarrow> int" where
  "hex_value hs =
     foldl (\<lambda>acc c. acc * 16 +
              (if is_digit c then int (of_char c) - 48 else int (of_char (to_lower c)) - 87)) 0 hs"

text \<open>
  \<open>parseInt(s)\<close> without a radix: leading white space, a sign, then hexadecimal digits
  after \<open>0x\<close> or decimal digits; \<open>NaN\<close>, written \<open>None\<close>, when there is no digit.
\<close>

definition parseInt :: "string \<Rightarrow> int option" where
  "parseInt s =
     (let s1 = dropWhile is_space s;
          sign = (case s1 of [] \<Rightarrow> 1 | c # _ \<Rightarrow> if c = CHR ''-'' then - 1 else (1 :: int));
          s2 = (case s1 of [] \<Rightarrow> [] | c # r \<Rightarrow> if c = CHR ''-'' \<or> c = CHR ''+'' then r else s1)
      in if map to_lower (take 2 s2) = ''0x''
         then (let hs = takeWhile is_hex (drop 2 s2)
               in if hs = [] then None else Some (sign * hex_value hs))
         else (let ds = takeWhile is_digit s2
               in if ds = [] then None else Some (sign * dec_value ds)))"

definition int_to_string :: "int \<Rightarrow> string" where
  "int_to_string n = (if n < 0 then ''-'' @ dec (- n) else dec n)"

text \<open>
  \<open>URLSearchParams.prototype.toString\<close>: names and values in the
  \<open>application/x-www-form-urlencoded\<close> form, joined by \<open>&\<close>. A character that is
  not kept is written as the bytes of its UTF-8 encoding, each as \<open>%XX\<close>: one byte for a
  code unit below 128 and two bytes for one from 128 to 255.
\<close>

definition is_alnum :: "char \<Rightarrow> bool" where
  "is_alnum c \<longleftrightarrow>
     is_digit c \<or> 97 \<le> (of_char (to_lower c) :: nat) \<and> (of_char (to_lower c) :: nat) \<le> 122"

definition hex_digit :: "nat \<Rightarrow> char" where
  "hex_digit n = ''0123456789ABCDEF'' ! (n mod 16)"

definition percent_byte :: "nat \<Rightarrow> string" where
  "percent_byte b = [CHR ''%'', hex_digit (b div 16), hex_digit b]"

definition urlencode_char :: "char \<Rightarrow> string" where
  "urlencode_char c =
     (if is_alnum c \<or> c \<in> set ''*-._'' then [c]
      else if c = CHR '' '' then ''+''
      else if (of_char c :: nat) < 128 then percent_byte (of_char c)
      else percent_byte (192 + of_char c div 64) @ percent_byte (128 + of_char c mod 64))"

definition urlencode :: "string \<Rightarrow> string" where
  "urlencode s = concat (map urlencode_char s)"

fun URLSearchParams_toString :: "(string \<times> string) list \<Rightarrow> string" where
  "URLSearchParams_toString [] = []"
| "URLSearchParams_toString [(name, v)] = urlencode name @ ''='' @ urlencode v"
| "URLSearchParams_toString ((name, v) # params) =
     urlencode name @ ''='' @ urlencode v @ ''&'' @ URLSearchParams_toString params"

section \<open>The host: clock, timers, network, page, settings\<close>

text \<open>
  A parsed JSON object is kept by the properties the program reads; a property that is
  absent (\<open>undefined\<close>) is \<open>None\<close>. A guid of the local server's metadata is an object
  with an \<open>id\<close> or a plain string. The body of a reply is its top-level object together
  with the array at \<open>MediaContainer.Metadata\<close> (empty when absent). \<open>response.json()\<close>
  gives that body, or rejects with the host's error for a body that is not JSON (a
  \<open>SyntaxError\<close> whose message depends on the body).
\<close>

datatype guid = GuidObj "string option" | GuidStr string

record JsObject =
  obj_Response :: "string option"
  obj_Error :: "string option"
  imdbID :: "string option"
  obj_title :: "string option"
  originalTitle :: "string option"
  obj_year :: "int option"
  obj_type :: "string option"
  Guid :: "guid list option"

datatype json_body = JsonBody JsObject "JsObject list"

record HttpResponse =
  status :: nat
  statusText :: string
  retryAfter :: "string option"
  json :: "js_error + json_body"

definition ok :: "HttpResponse \<Rightarrow> bool" where
  "ok response \<longleftrightarrow> 200 \<le> status response \<and> status response \<le> 299"

text \<open>
  A call of \<open>fetch\<close> resolves with a response or rejects (a network failure, or an
  \<open>AbortError\<close> when the request's signal is aborted). What the \<open>k\<close>-th call of the
  session does for a URL, and after how many milliseconds, is the host's: \<open>network\<close>.
  So are the lateness of the \<open>k\<close>-th timer (\<open>timer_late\<close>) and \<open>decodeURIComponent\<close>.
  The world records the URLs fetched and the delays of the timers awaited.
\<close>

datatype fetch_outcome = Responded HttpResponse | Rejected js_error

record world =
  clock :: int
  timer_late :: "nat \<Rightarrow> nat"
  waited :: "int option list"
  network :: "nat \<Rightarrow> string \<Rightarrow> nat \<times> fetch_outcome"
  fetched :: "string list"
  rateLimiter :: RateLimiter
  apiCache :: "JsObject LRUCache"
  apiKey :: "string option"
  plexToken :: "string option"
  plexUrl :: "string option"
  innerHTML :: string
  location_href :: string
  decodeURIComponent :: "string \<Rightarrow> js_error + string"

definition sleep :: "world \<Rightarrow> int option \<Rightarrow> world" where
  "sleep w d =
     w\<lparr>clock := clock w + timer_delay d + int (timer_late w (length (waited w))),
       waited := waited w @ [d]\<rparr>"

definition fetch :: "world \<Rightarrow> string \<Rightarrow> fetch_outcome \<times> world" where
  "fetch w url =
     (case network w (length (fetched w)) url of
        (took, outcome) \<Rightarrow>
          (outcome, w\<lparr>clock := clock w + int took, fetched := fetched w @ [url]\<rparr>))"

text \<open>A string is truthy when it is present and not empty.\<close>

definition truthy :: "string option \<Rightarrow> bool" where
  "truthy s \<longleftrightarrow> (case s of None \<Rightarrow> False | Some x \<Rightarrow> x \<noteq> [])"

section \<open>\<open>fetchWithRetry\<close> (rate-limiter.js)\<close>

definition backoff :: "nat \<Rightarrow> int" where
  "backoff attempt = min (INITIAL_RETRY_DELAY_MS * 2 ^ attempt) MAX_RETRY_DELAY_MS"

definition http_error :: "HttpResponse \<Rightarrow> js_error" where
  "http_error response =
     Err ''Error'' (''HTTP '' @ dec (int (status response)) @ '': '' @ statusText response)"

text \<open>\<open>parseInt(response.headers.get('Retry-After') || 60) * 1000\<close>\<close>

definition retry_after_ms :: "HttpResponse \<Rightarrow> int option" where
  "retry_after_ms response =
     map_option (\<lambda>n. n * 1000)
       (parseInt (if truthy (retryAfter response)
                  then (case retryAfter response of Some h \<Rightarrow> h | None \<Rightarrow> ''60'')
                  else ''60''))"

text \<open>
  The body of the \<open>for\<close> loop with its \<open>try\<close> and \<open>catch\<close>. Every \<open>throw\<close> inside the
  \<open>try\<close> block, the one for a status that is not ok included, is caught by the \<open>catch\<close>
  block of the same iteration: it throws again on the last attempt, and otherwise waits
  for the backoff delay and lets the loop go on.
\<close>

function fetch_loop ::
  "world \<Rightarrow> string \<Rightarrow> nat \<Rightarrow> nat \<Rightarrow> js_error option
     \<Rightarrow> (js_error + HttpResponse) \<times> world" where
  "fetch_loop w url maxRetries attempt lastError =
     (if attempt < maxRetries
      then (case fetch w url of
              (Responded response, w1) \<Rightarrow>
                if status response = 429
                then fetch_loop (sleep w1 (retry_after_ms response)) url maxRetries
                       (attempt + 1) lastError
                else if status response \<ge> 500
                then (if attempt = maxRetries - 1
                      then (Inl (http_error response), w1)
                      else fetch_loop (sleep w1 (Some (backoff attempt))) url maxRetries
                             (attempt + 1) (Some (http_error response)))
                else if \<not> ok response
                then (if attempt = maxRetries - 1
                      then (Inl (http_error response), w1)
                      else fetch_loop (sleep w1 (Some (backoff attempt))) url maxRetries
                             (attempt + 1) (Some (http_error response)))
                else (Inr response, w1)
            | (Rejected error, w1) \<Rightarrow>
                if attempt = maxRetries - 1
                then (Inl error, w1)
                else fetch_loop (sleep w1 (Some (backoff attempt))) url maxRetries
                       (attempt + 1) (Some error))
      else (Inl (case lastError of
                   Some error \<Rightarrow> error
                 | None \<Rightarrow> Err ''Error'' ''Fetch failed after all retries with unknown error''),
            w))"
  by pat_completeness auto
termination
  by (relation "measure (\<lambda>(w, url, maxRetries, attempt, lastError). maxRetries - attempt)") auto

declare fetch_loop.simps [simp del]

definition fetchWithRetry ::
  "world \<Rightarrow> string \<Rightarrow> nat \<Rightarrow> (js_error + HttpResponse) \<times> world" where
  "fetchWithRetry w url maxRetries =
     (case acquire (rateLimiter w) (\<lambda>depth. timer_late w (length (waited w) + depth)) 0 (clock w) of
        (res, r', now', waits) \<Rightarrow>
          (let w1 = w\<lparr>rateLimiter := r', clock := now', waited := waited w @ waits\<rparr>
           in case res of
                Inl error \<Rightarrow> (Inl error, w1)
              | Inr _ \<Rightarrow> fetch_loop w1 url maxRetries 0 None))"

section \<open>\<open>OMDBClient\<close> (api-client.js)\<close>

definition request :: "world \<Rightarrow> (string \<times> string) list \<Rightarrow> (js_error + JsObject) \<times> world" where
  "request w params =
     (if \<not> truthy (apiKey w) then (Inl (Err ''Error'' ''API key not configured''), w)
      else (let fullParams = (''apikey'', (case apiKey w of Some k \<Rightarrow> k | None \<Rightarrow> [])) # params;
                cacheKey = ''omdb:'' @ URLSearchParams_toString fullParams;
                looked = (if ENABLE_CACHE then get (apiCache w) cacheKey (clock w)
                          else (None, apiCache w));
                w1 = w\<lparr>apiCache := snd looked\<rparr>
            in case fst looked of
                 Some cached \<Rightarrow> (Inr cached, w1)
               | None \<Rightarrow>
                   (case fetchWithRetry w1 (OMDB_BASE_URL @ ''?'' @ URLSearchParams_toString fullParams)
                           MAX_RETRY_ATTEMPTS of
                      (Inl error, w2) \<Rightarrow> (Inl error, w2)
                    | (Inr response, w2) \<Rightarrow>
                        (case json response of
                           Inl error \<Rightarrow> (Inl error, w2)
                         | Inr (JsonBody data' metadata) \<Rightarrow>
                             if obj_Response data' \<noteq> Some ''True''
                             then (Inl (Err ''Error''
                                         (if truthy (obj_Error data')
                                          then (case obj_Error data' of Some m \<Rightarrow> m | None \<Rightarrow> [])
                                          else ''API request failed'')), w2)
                             else (Inr data',
                                   if ENABLE_CACHE
                                   then w2\<lparr>apiCache :=
                                           set_entry (apiCache w2) cacheKey (Some data') (clock w2)\<rparr>
                                   else w2)))))"

text \<open>
  \<open>searchByTitle(title, year = '', type = 'movie')\<close>; a \<open>title\<close> that is not a string is
  \<open>None\<close>, and \<open>year\<close> is the string the argument converts to.
\<close>

definition searchByTitle ::
  "world \<Rightarrow> string option \<Rightarrow> string \<Rightarrow> string \<Rightarrow> (js_error + JsObject) \<times> world" where
  "searchByTitle w title' year' type' =
     (if \<not> truthy title' then (Inl (Err ''Error'' ''Invalid title parameter''), w)
      else request w
             ([(''t'', trim (case title' of Some t \<Rightarrow> t | None \<Rightarrow> [])), (''type'', type')] @
              (if year' \<noteq> [] \<and> YEAR_test year' then [(''y'', year')] else [])))"

definition getByIMDbId :: "world \<Rightarrow> string \<Rightarrow> (js_error + JsObject) \<times> world" where
  "getByIMDbId w imdbId' =
     (if \<not> IMDB_ID_test imdbId'
      then (Inl (Err ''Error'' (''Invalid IMDb ID format: '' @ imdbId')), w)
      else request w [(''i'', imdbId'), (''plot'', ''short'')])"

section \<open>\<open>URLUtils\<close> (url-utils.js)\<close>

definition safeDecode :: "world \<Rightarrow> string \<Rightarrow> string" where
  "safeDecode w url =
     (let url1 = (if length url > 2000 then take 2000 url else url)
      in case decodeURIComponent w url1 of
           Inl e \<Rightarrow> url1
         | Inr decoded \<Rightarrow> if 2 * length decoded > 2000 * 5 then url1 else decoded)"

fun try_patterns :: "regex list \<Rightarrow> (string \<Rightarrow> bool) \<Rightarrow> string \<Rightarrow> string option" where
  "try_patterns [] validator s = None"
| "try_patterns (pattern # patterns) validator s =
     (case match1 pattern s of
        None \<Rightarrow> try_patterns patterns validator s
      | Some v \<Rightarrow>
          if v = [] then try_patterns patterns validator s
          else if \<not> validator v then try_patterns patterns validator s
          else Some v)"

definition extractPattern ::
  "world \<Rightarrow> string \<Rightarrow> regex list \<Rightarrow> (string \<Rightarrow> bool) \<Rightarrow> string option" where
  "extractPattern w url patterns validator =
     (let decoded = safeDecode w url
      in case try_patterns patterns validator decoded of
           Some v \<Rightarrow> Some v
         | None \<Rightarrow> if decoded \<noteq> url then try_patterns patterns validator url else None)"

section \<open>\<open>PlexAPIClient\<close> (plex-api-client.js)\<close>

definition isAvailable :: "world \<Rightarrow> bool" where
  "isAvailable w \<longleftrightarrow> truthy (plexToken w) \<and> truthy (plexUrl w)"

definition extractRatingKey :: "world \<Rightarrow> string \<Rightarrow> string option" where
  "extractRatingKey w url =
     extractPattern w url
       [Regex False (One (OneOf ''?&'') # lits ''key=/library/metadata/'') [Rep Digit 1 None] [],
        Regex False (lits ''/library/metadata/'') [Rep Digit 1 None] [],
        Regex False (lits ''ratingKey='') [Rep Digit 1 None] []]
       (test_full False [Rep Digit 1 None])"

definition fetchMetadata :: "world \<Rightarrow> string \<Rightarrow> JsObject option \<times> world" where
  "fetchMetadata w ratingKey =
     (if \<not> isAvailable w then (None, w)
      else (let cacheKey = ''plex_metadata_'' @ ratingKey;
                looked = get (apiCache w) cacheKey (clock w);
                w1 = w\<lparr>apiCache := snd looked\<rparr>
            in case fst looked of
                 Some cached \<Rightarrow> (Some cached, w1)
               | None \<Rightarrow>
                   (case fetch w1 ((case plexUrl w1 of Some u \<Rightarrow> u | None \<Rightarrow> []) @
                                    ''/library/metadata/'' @ ratingKey) of
                      (Rejected error, w2) \<Rightarrow> (None, w2)
                    | (Responded response, w2) \<Rightarrow>
                        if \<not> ok response then (None, w2)
                        else (case json response of
                                Inl error \<Rightarrow> (None, w2)
                              | Inr (JsonBody data' []) \<Rightarrow> (None, w2)
                              | Inr (JsonBody data' (metadata # rest)) \<Rightarrow>
                                  (Some metadata,
                                   w2\<lparr>apiCache :=
                                        set_entry (apiCache w2) cacheKey (Some metadata)
                                          (clock w2)\<rparr>)))))"

text \<open>
  \<open>guid.id || guid\<close> is the \<open>id\<close> of an object that has a non-empty one and the guid
  itself otherwise; \<open>id.match\<close> is then a TypeError unless that is a string.
\<close>

definition guid_id :: "guid \<Rightarrow> js_error + string" where
  "guid_id g =
     (case g of
        GuidStr s \<Rightarrow> Inr s
      | GuidObj i \<Rightarrow>
          if truthy i then Inr (case i of Some s \<Rightarrow> s | None \<Rightarrow> [])
          else Inl (Err ''TypeError'' ''id.match is not a function''))"

fun extractIMDbId_loop :: "guid list \<Rightarrow> js_error + string option" where
  "extractIMDbId_loop [] = Inr None"
| "extractIMDbId_loop (g # guids) =
     (case guid_id g of
        Inl error \<Rightarrow> Inl error
      | Inr i \<Rightarrow>
          (case match1 (Regex True (lits ''imdb://'') (lits ''tt'' @ [Rep Digit 1 None]) []) i of
             Some imdbId' \<Rightarrow> Inr (Some imdbId')
           | None \<Rightarrow>
               (case match1 (Regex True [] (lits ''tt'' @ [Rep Digit 7 None]) []) i of
                  Some imdbId' \<Rightarrow> Inr (Some imdbId')
                | None \<Rightarrow> extractIMDbId_loop guids)))"

definition extractIMDbId :: "JsObject \<Rightarrow> js_error + string option" where
  "extractIMDbId metadata =
     extractIMDbId_loop (case Guid metadata of None \<Rightarrow> [] | Some guids \<Rightarrow> guids)"

record SearchTerms =
  terms_title :: "string option"
  terms_originalTitle :: "string option"
  terms_year :: "int option"
  terms_type :: "string option"

definition getBestSearchTerms :: "JsObject \<Rightarrow> SearchTerms" where
  "getBestSearchTerms metadata =
     \<lparr>terms_title = obj_title metadata,
      terms_originalTitle =
        (if truthy (originalTitle metadata) then originalTitle metadata else obj_title metadata),
      terms_year = (if obj_year metadata = Some 0 then None else obj_year metadata),
      terms_type = obj_type metadata\<rparr>"

record PlexData =
  imdbId :: "string option"
  searchTerms :: SearchTerms
  metadata_of :: JsObject

definition getIMDbDataFromPage :: "world \<Rightarrow> (js_error + PlexData option) \<times> world" where
  "getIMDbDataFromPage w =
     (case extractRatingKey w (location_href w) of
        None \<Rightarrow> (Inr None, w)
      | Some ratingKey \<Rightarrow>
          (case fetchMetadata w ratingKey of
             (None, w1) \<Rightarrow> (Inr None, w1)
           | (Some metadata, w1) \<Rightarrow>
               (case extractIMDbId metadata of
                  Inl error \<Rightarrow> (Inl error, w1)
                | Inr found \<Rightarrow>
                    (Inr (Some \<lparr>imdbId = found, searchTerms = getBestSearchTerms metadata,
                                 metadata_of = metadata\<rparr>), w1))))"

section \<open>\<open>MetadataResolver\<close> (metadata-resolver.js)\<close>

record MovieInfo =
  title :: string
  year :: "string option"

definition imdbLinkPatterns :: "regex list" where
  "imdbLinkPatterns =
     [Regex True (lits ''imdb.com/title/'') (lits ''tt'' @ [Rep Digit 1 None]) [],
      Regex True (lits ''imdb.com/'' @ [Rep Dot 0 None] @ lits ''/'')
        (lits ''tt'' @ [Rep Digit 1 None]) [],
      Regex True (lits ''\"imdb_id\":\"'') (lits ''tt'' @ [Rep Digit 1 None]) (lits ''\"''),
      Regex True (lits (apostrophe # ''imdb_id'' @ [apostrophe, CHR '':'', apostrophe]))
        (lits ''tt'' @ [Rep Digit 1 None]) (lits [apostrophe])]"

fun first_match :: "regex list \<Rightarrow> string \<Rightarrow> string option" where
  "first_match [] bodyText = None"
| "first_match (pattern # patterns) bodyText =
     (case match1 pattern bodyText of
        Some captured \<Rightarrow> Some captured
      | None \<Rightarrow> first_match patterns bodyText)"

definition findIMDbIdInPage :: "world \<Rightarrow> string option" where
  "findIMDbIdInPage w = first_match imdbLinkPatterns (innerHTML w)"

definition year_or_empty :: "string option \<Rightarrow> string" where
  "year_or_empty y = (if truthy y then (case y of Some s \<Rightarrow> s | None \<Rightarrow> []) else [])"

text \<open>The third strategy and the final \<open>return null\<close>.\<close>

definition strategy3 :: "world \<Rightarrow> MovieInfo \<Rightarrow> (js_error + string option) \<times> world" where
  "strategy3 w movieInfo =
     (case searchByTitle w (Some (title movieInfo)) (year_or_empty (year movieInfo)) ''movie'' of
        (Inl error, w1) \<Rightarrow> (Inl error, w1)
      | (Inr omdbData, w1) \<Rightarrow>
          if truthy (imdbID omdbData) then (Inr (imdbID omdbData), w1)
          else (Inr None, w1))"

definition resolveIMDbId :: "world \<Rightarrow> MovieInfo \<Rightarrow> (js_error + string option) \<times> world" where
  "resolveIMDbId w movieInfo =
     (let pageImdbId = findIMDbIdInPage w
      in if truthy pageImdbId then (Inr pageImdbId, w)
         else if isAvailable w
         then (case getIMDbDataFromPage w of
                 (Inl error, w1) \<Rightarrow> (Inl error, w1)
               | (Inr None, w1) \<Rightarrow> strategy3 w1 movieInfo
               | (Inr (Some plexData), w1) \<Rightarrow>
                   if truthy (imdbId plexData) then (Inr (imdbId plexData), w1)
                   else (case searchByTitle w1 (terms_originalTitle (searchTerms plexData))
                                (case terms_year (searchTerms plexData) of
                                   None \<Rightarrow> []
                                 | Some y \<Rightarrow> int_to_string y) ''movie'' of
                           (Inl error, w2) \<Rightarrow> (Inl error, w2)
                         | (Inr omdbData, w2) \<Rightarrow>
                             if truthy (imdbID omdbData) then (Inr (imdbID omdbData), w2)
                             else strategy3 w2 movieInfo))
         else strategy3 w movieInfo)"

section \<open>The state after the scripts have loaded\<close>

text \<open>
  \<open>window.apiCache\<close> and \<open>window.rateLimiter\<close> are built from the configuration when the
  scripts load. In \<open>loaded\<close> nothing is configured, the page is empty, the network is
  unreachable, timers are punctual and the URLs to decode contain no escape.
\<close>

definition loaded :: world where
  "loaded =
     \<lparr>clock = 0,
      timer_late = (\<lambda>k. 0),
      waited = [],
      network = (\<lambda>k url. (0, Rejected (Err ''TypeError'' ''Failed to fetch''))),
      fetched = [],
      rateLimiter = new_RateLimiter MAX_REQUESTS_PER_HOUR RATE_LIMIT_WINDOW_MS,
      apiCache = new_LRUCache CACHE_MAX_SIZE CACHE_TTL_MINUTES,
      apiKey = None,
      plexToken = None,
      plexUrl = None,
      innerHTML = [],
      location_href = [],
      decodeURIComponent = Inr\<rparr>"

text \<open>
  A reply with the given status and, when there is one, the given JSON body; \<open>None\<close> is
  an empty body, for which \<open>response.json()\<close> rejects.
\<close>

definition reply :: "nat \<Rightarrow> string \<Rightarrow> json_body option \<Rightarrow> fetch_outcome" where
  "reply code text' body =
     Responded \<lparr>status = code, statusText = text', retryAfter = None,
                json = (case body of
                          None \<Rightarrow> Inl (Err ''SyntaxError'' ''Unexpected end of JSON input'')
                        | Some b \<Rightarrow> Inr b)\<rparr>"

definition empty_object :: JsObject where
  "empty_object =
     \<lparr>obj_Response = None, obj_Error = None, imdbID = None, obj_title = None,
      originalTitle = None, obj_year = None, obj_type = None, Guid = None\<rparr>"

section \<open>Facts about the \<open>Map\<close> model\<close>

lemma keys_Map_delete: "map fst (Map_delete k m) = removeAll k (map fst m)"
  by (induction m) (auto simp: Map_delete_def)

lemma length_Map_delete_le: "length (Map_delete k m) \<le> length m"
  by (simp add: Map_delete_def)

lemma Map_delete_absent: "k \<notin> set (map fst m) \<Longrightarrow> Map_delete k m = m"
  by (induction m) (auto simp: Map_delete_def)

lemma Map_delete_first:
  "distinct (map fst ((k, v) # m)) \<Longrightarrow> Map_delete k ((k, v) # m) = m"
  using Map_delete_absent [of k m] by (simp add: Map_delete_def)

lemma Map_set_absent: "k \<notin> set (map fst m) \<Longrightarrow> Map_set k v m = m @ [(k, v)]"
  by (induction m) auto

lemma keys_Map_set:
  "map fst (Map_set k v m) = (if k \<in> set (map fst m) then map fst m else map fst m @ [k])"
  by (induction m) (fastforce split: if_splits)+

lemma length_Map_set_le: "length (Map_set k v m) \<le> Suc (length m)"
  by (induction m) auto

lemma Map_get_Map_set: "Map_get (Map_set k v m) k = Some v"
  by (induction m) auto

lemma Map_get_None_iff: "(Map_get m k = None) = (k \<notin> set (map fst m))"
  by (induction m) (fastforce split: if_splits)+

lemma Map_get_Some_mem: "Map_get m k = Some v \<Longrightarrow> (k, v) \<in> set m"
  by (induction m) (auto split: if_splits)

lemma distinct_Map_delete: "distinct (map fst m) \<Longrightarrow> distinct (map fst (Map_delete k m))"
  by (simp add: keys_Map_delete distinct_removeAll)

lemma distinct_Map_set: "distinct (map fst m) \<Longrightarrow> distinct (map fst (Map_set k v m))"
  by (simp add: keys_Map_set)


lemma size_set_entry:
  assumes "1 \<le> B" and "\<And>n. \<not> size_ge n (maxSize c) \<Longrightarrow> n < B" and "length (cache c) \<le> B"
  shows "length (cache (set_entry c key v now)) \<le> B"
proof (cases "cache c")
  case Nil
  then show ?thesis using assms(1) by (simp add: set_entry_def Let_def)
next
  case (Cons p rest)
  obtain k0 e0 where p: "p = (k0, e0)" by (cases p)
  have del: "length (Map_delete k0 (cache c)) \<le> length rest"
    using Cons p by (simp add: Map_delete_def)
  show ?thesis
  proof (cases "size_ge (length (cache c)) (maxSize c)")
    case True
    have "length (cache (set_entry c key v now)) \<le> Suc (length (Map_delete k0 (cache c)))"
      using True Cons p by (simp add: set_entry_def Let_def length_Map_set_le)
    with del Cons assms(3) show ?thesis by simp
  next
    case False
    have "length (cache (set_entry c key v now)) \<le> Suc (length (cache c))"
      using False by (simp add: set_entry_def Let_def length_Map_set_le)
    with assms(2) [OF False] show ?thesis by simp
  qed
qed

lemma size_get: "length (cache (snd (get c key now))) \<le> length (cache c)"
proof (cases "Map_get (cache c) key")
  case None
  then show ?thesis by (simp add: get_def)
next
  case (Some item)
  then have mem: "key \<in> set (map fst (cache c))"
    using Map_get_None_iff [of "cache c" key] by simp
  have "length (Map_set key item (Map_delete key (cache c))) \<le> length (cache c)"
  proof -
    have "length (Map_delete key (cache c)) < length (cache c)"
      using mem by (auto simp: Map_delete_def intro!: length_filter_less)
    moreover have "length (Map_set key item (Map_delete key (cache c)))
                    \<le> Suc (length (Map_delete key (cache c)))"
      by (rule length_Map_set_le)
    ultimately show ?thesis by simp
  qed
  with Some show ?thesis
    using length_Map_delete_le [of key "cache c"] by (simp add: get_def)
qed

lemma snd_has: "snd (has c key now) = snd (get c key now)"
  by (simp add: has_def split: prod.splits)

lemma maxSize_apply_op: "maxSize (apply_op c op) = maxSize c"
  by (cases op) (auto simp: get_def set_entry_def has_def delete_def clear_def Let_def
       split: option.splits prod.splits)

lemma size_apply_op:
  assumes "1 \<le> B" and "\<And>n. \<not> size_ge n (maxSize c) \<Longrightarrow> n < B" and "length (cache c) \<le> B"
  shows "length (cache (apply_op c op)) \<le> B"
proof (cases op)
  case (OpGet key now)
  then show ?thesis using size_get [of c key now] assms(3) by simp
next
  case (OpSet key v now)
  then show ?thesis using size_set_entry [OF assms, of key v now] by simp
next
  case (OpHas key now)
  then show ?thesis using size_get [of c key now] assms(3) by (simp add: snd_has)
next
  case (OpDelete key)
  then show ?thesis
    using length_Map_delete_le [of key "cache c"] assms(3) by (simp add: delete_def)
next
  case OpClear
  then show ?thesis by (simp add: clear_def)
qed

lemma size_run_ops:
  assumes "1 \<le> B" and "\<And>n. \<not> size_ge n (maxSize c) \<Longrightarrow> n < B" and "length (cache c) \<le> B"
  shows "length (cache (run_ops c ops)) \<le> B"
  using assms(2,3)
proof (induction ops arbitrary: c)
  case Nil
  then show ?case by (simp add: run_ops_def)
next
  case (Cons op ops)
  have "length (cache (apply_op c op)) \<le> B"
    using size_apply_op [OF assms(1) Cons.prems] .
  moreover have "\<And>n. \<not> size_ge n (maxSize (apply_op c op)) \<Longrightarrow> n < B"
    using Cons.prems(1) by (simp add: maxSize_apply_op)
  ultimately have "length (cache (run_ops (apply_op c op) ops)) \<le> B"
    by (intro Cons.IH)
  then show ?case by (simp add: run_ops_def)
qed

lemma size_new_LRUCache:
  "length (cache (run_ops (new_LRUCache (Num q) m) ops)) \<le> max 1 (nat \<lceil>q\<rceil>)"
proof (rule size_run_ops)
  show "1 \<le> max 1 (nat \<lceil>q\<rceil>)" by simp
  show "length (cache (new_LRUCache (Num q) m)) \<le> max 1 (nat \<lceil>q\<rceil>)"
    by (simp add: new_LRUCache_def)
  fix n
  assume "\<not> size_ge n (maxSize (new_LRUCache (Num q) m))"
  then have "of_nat n < q" by (simp add: new_LRUCache_def)
  then have "int n < \<lceil>q\<rceil>" by (simp add: less_ceiling_iff)
  then show "n < max 1 (nat \<lceil>q\<rceil>)" by simp
qed

lemma get_expired:
  "Map_get (cache c) key = Some item \<Longrightarrow> expiry item < now \<Longrightarrow>
   fst (get c key now) = None \<and> key \<notin> set (keys (snd (get c key now)))"
  by (simp add: get_def keys_def keys_Map_delete)

lemma distinct_apply_op: "distinct (keys c) \<Longrightarrow> distinct (keys (apply_op c op))"
proof (cases op)
  case (OpSet key v now)
  assume "distinct (keys c)"
  then have "distinct (map fst (cache c))" by (simp add: keys_def)
  then have "distinct (map fst (case cache c of [] \<Rightarrow> [] | (firstKey, _) # _ \<Rightarrow> Map_delete firstKey (cache c)))"
    by (auto simp: distinct_Map_delete split: list.splits simp del: distinct_map)
  then show ?thesis using OpSet \<open>distinct (map fst (cache c))\<close>
    by (simp add: keys_def set_entry_def Let_def distinct_Map_set del: distinct_map)
qed (auto simp: keys_def get_def snd_has delete_def clear_def distinct_Map_delete distinct_Map_set
       split: option.splits simp del: distinct_map)

lemma distinct_run_ops: "distinct (keys c) \<Longrightarrow> distinct (keys (run_ops c ops))"
  unfolding run_ops_def by (induction ops arbitrary: c) (simp_all add: distinct_apply_op)

lemmas cache_eval = run_ops_def new_LRUCache_def set_entry_def get_def has_def delete_def
  clear_def keys_def Map_delete_def Let_def

section \<open>The cache: capacity, expiry, eviction order, statistics\<close>

text \<open>
  Claim C4, as amended. For every sequence of cache operations (\<open>get\<close>, \<open>set\<close>, \<open>has\<close>, \<open>delete\<close>,
  \<open>clear\<close>) on a new cache constructed with a finite number \<open>maxSize\<close>, the number of
  stored entries never exceeds the larger of 1 and \<open>maxSize\<close> rounded up to an integer;
  so it never exceeds \<open>maxSize\<close> when \<open>maxSize\<close> is an integer that is at least 1. And
  whatever \<open>maxSize\<close> is, \<open>get\<close> returns not-found (\<open>null\<close>) for an entry once the current
  time is past its expiry.
\<close>

theorem cache_size_bounded:
  "length (cache (run_ops (new_LRUCache (Num q) m) ops)) \<le> max 1 (nat \<lceil>q\<rceil>) \<and>
   (0 < k \<longrightarrow> length (cache (run_ops (new_LRUCache (Num (of_nat k)) m) ops)) \<le> k) \<and>
   (\<forall>key now item.
      Map_get (cache (run_ops (new_LRUCache n m) ops)) key = Some item \<and> expiry item < now
      \<longrightarrow> fst (get (run_ops (new_LRUCache n m) ops) key now) = None)"
proof -
  have "length (cache (run_ops (new_LRUCache (Num (of_nat k)) m) ops)) \<le> k" if "0 < k"
    using size_new_LRUCache [of "of_nat k" m ops] that by simp
  then show ?thesis using size_new_LRUCache [of q m ops] get_expired by blast
qed

theorem cache_size_bounded_witness:
  "length (cache (run_ops (new_LRUCache (Num (5 / 2)) 1)
      [OpSet ''a'' (Some (1::nat)) 0, OpSet ''b'' (Some 2) 1, OpSet ''c'' (Some 3) 2,
       OpSet ''d'' (Some 4) 3])) \<le> 3 \<and>
   0 < (2::nat) \<and>
   length (cache (run_ops (new_LRUCache (Num 2) 1)
      [OpSet ''a'' (Some (1::nat)) 0, OpSet ''b'' (Some 2) 1, OpSet ''c'' (Some 3) 2])) \<le> 2 \<and>
   Map_get (cache (run_ops (new_LRUCache (Num 2) 1)
      [OpSet ''a'' (Some (1::nat)) 0, OpSet ''b'' (Some 2) 1, OpSet ''c'' (Some 3) 2])) ''c''
     = Some \<lparr>entry_value = Some 3, expiry = 60002, timestamp = 2\<rparr> \<and>
   expiry \<lparr>entry_value = Some (3::nat), expiry = 60002, timestamp = 2\<rparr> < 60003 \<and>
   fst (get (run_ops (new_LRUCache (Num 2) 1)
      [OpSet ''a'' (Some (1::nat)) 0, OpSet ''b'' (Some 2) 1, OpSet ''c'' (Some 3) 2]) ''c'' 60003)
     = None"
proof -
  let ?ops = "[OpSet ''a'' (Some (1::nat)) 0, OpSet ''b'' (Some 2) 1, OpSet ''c'' (Some 3) 2]"
  let ?c = "run_ops (new_LRUCache (Num 2) 1) ?ops"
  let ?item = "\<lparr>entry_value = Some (3::nat), expiry = 60002, timestamp = 2\<rparr>"
  have h: "Map_get (cache ?c) ''c'' = Some ?item \<and> expiry ?item < 60003"
    by (simp add: cache_eval)
  have c: "\<lceil>5 / 2 :: rat\<rceil> = 3" by (simp add: ceiling_eq_iff)
  from cache_size_bounded [of "5 / 2" 1
      "[OpSet ''a'' (Some (1::nat)) 0, OpSet ''b'' (Some 2) 1, OpSet ''c'' (Some 3) 2,
        OpSet ''d'' (Some 4) 3]" 2 "Num 2"]
  have 1: "length (cache (run_ops (new_LRUCache (Num (5 / 2)) 1)
      [OpSet ''a'' (Some (1::nat)) 0, OpSet ''b'' (Some 2) 1, OpSet ''c'' (Some 3) 2,
       OpSet ''d'' (Some 4) 3])) \<le> 3"
    unfolding c by simp
  from cache_size_bounded [of 2 1 ?ops 2 "Num 2"]
  have 2: "length (cache ?c) \<le> 2" and 3: "fst (get ?c ''c'' 60003) = None"
    using h by auto
  from 1 2 3 h show ?thesis by simp
qed

text \<open>
  Claim C4 as stated fails for a cache constructed with \<open>maxSize = 0\<close>: \<open>set\<close> finds
  nothing to evict and stores the entry, so one entry is held. It also fails for one
  constructed with \<open>maxSize = 1.5\<close>: the second \<open>set\<close> finds the size 1 below 1.5, evicts
  nothing, and two entries are held.
\<close>

theorem cache_size_counterexample:
  "maxSize (run_ops (new_LRUCache (Num 0) 60) [OpSet ''a'' (Some (1::nat)) 0]) = Num 0 \<and>
   (0 :: rat) < of_nat (length (cache (run_ops (new_LRUCache (Num 0) 60)
                                          [OpSet ''a'' (Some (1::nat)) 0]))) \<and>
   maxSize (run_ops (new_LRUCache (Num (3 / 2)) 60)
              [OpSet ''a'' (Some (1::nat)) 0, OpSet ''b'' (Some 2) 1]) = Num (3 / 2) \<and>
   (3 / 2 :: rat) < of_nat (length (cache (run_ops (new_LRUCache (Num (3 / 2)) 60)
                                              [OpSet ''a'' (Some (1::nat)) 0, OpSet ''b'' (Some 2) 1])))"
  by (simp add: run_ops_def new_LRUCache_def set_entry_def)

text \<open>
  Claim C5. When \<open>set(key, value)\<close> is called with a fresh key on a cache whose size
  equals \<open>maxSize\<close>, exactly the entry at the earliest position of the access order is
  evicted, every other entry keeps its place, and the new entry is stored last with
  expiry \<open>now + ttl\<close>; a \<open>get\<close> or \<open>has\<close> that finds an unexpired entry moves it to the
  last (most recently used) position.
\<close>

theorem set_fresh_key_at_capacity:
  assumes "distinct (keys c)"
    and "maxSize c = Num (of_nat (length (cache c)))"
    and "key \<notin> set (keys c)"
  shows "cache (set_entry c key v now) =
           tl (cache c) @ [(key, \<lparr>entry_value = v, expiry = now + ttl c, timestamp = now\<rparr>)] \<and>
         (\<forall>k item t. Map_get (cache c) k = Some item \<and> \<not> t > expiry item \<longrightarrow>
            fst (get c k t) = entry_value item \<and>
            cache (snd (get c k t)) = Map_delete k (cache c) @ [(k, item)] \<and>
            cache (snd (has c k t)) = Map_delete k (cache c) @ [(k, item)])"
proof -
  have 1: "cache (set_entry c key v now) =
           tl (cache c) @ [(key, \<lparr>entry_value = v, expiry = now + ttl c, timestamp = now\<rparr>)]"
  proof (cases "cache c")
    case Nil
    then show ?thesis by (simp add: set_entry_def Let_def)
  next
    case (Cons p rest)
    obtain k0 e0 where p: "p = (k0, e0)" by (cases p)
    have del: "Map_delete k0 (cache c) = rest"
      using assms(1) Cons p Map_delete_first [of k0 e0 rest] by (simp add: keys_def)
    have "key \<notin> set (map fst rest)"
      using assms(3) Cons by (simp add: keys_def)
    then show ?thesis
      using assms(2) Cons p del by (simp add: set_entry_def Let_def Map_set_absent)
  qed
  have 2: "fst (get c k t) = entry_value item \<and>
           cache (snd (get c k t)) = Map_delete k (cache c) @ [(k, item)] \<and>
           cache (snd (has c k t)) = Map_delete k (cache c) @ [(k, item)]"
    if "Map_get (cache c) k = Some item" and "\<not> t > expiry item" for k item t
  proof -
    have "k \<notin> set (map fst (Map_delete k (cache c)))"
      by (simp add: keys_Map_delete)
    then have "Map_set k item (Map_delete k (cache c)) = Map_delete k (cache c) @ [(k, item)]"
      by (rule Map_set_absent)
    with that show ?thesis by (simp add: get_def snd_has)
  qed
  from 1 2 show ?thesis by blast
qed

theorem set_fresh_key_at_capacity_witness:
  "distinct (keys (run_ops (new_LRUCache (Num 2) 1) [OpSet ''a'' (Some (1::nat)) 0, OpSet ''b'' (Some 2) 1])) \<and>
   maxSize (run_ops (new_LRUCache (Num 2) 1) [OpSet ''a'' (Some (1::nat)) 0, OpSet ''b'' (Some 2) 1]) = Num 2 \<and>
   length (cache (run_ops (new_LRUCache (Num 2) 1) [OpSet ''a'' (Some (1::nat)) 0, OpSet ''b'' (Some 2) 1])) = 2 \<and>
   ''c'' \<notin> set (keys (run_ops (new_LRUCache (Num 2) 1) [OpSet ''a'' (Some (1::nat)) 0, OpSet ''b'' (Some 2) 1])) \<and>
   cache (set_entry (run_ops (new_LRUCache (Num 2) 1) [OpSet ''a'' (Some (1::nat)) 0, OpSet ''b'' (Some 2) 1])
            ''c'' (Some 3) 7)
     = [(''b'', \<lparr>entry_value = Some 2, expiry = 60001, timestamp = 1\<rparr>),
        (''c'', \<lparr>entry_value = Some 3, expiry = 60007, timestamp = 7\<rparr>)] \<and>
   keys (snd (get (run_ops (new_LRUCache (Num 2) 1) [OpSet ''a'' (Some (1::nat)) 0, OpSet ''b'' (Some 2) 1])
            ''a'' 5)) = [''b'', ''a'']"
proof -
  let ?c = "run_ops (new_LRUCache (Num 2) 1) [OpSet ''a'' (Some (1::nat)) 0, OpSet ''b'' (Some 2) 1]"
  let ?a = "\<lparr>entry_value = Some (1::nat), expiry = 60000, timestamp = 0\<rparr>"
  have c: "cache ?c = [(''a'', ?a), (''b'', \<lparr>entry_value = Some 2, expiry = 60001, timestamp = 1\<rparr>)]"
    by (simp add: cache_eval)
  have t: "ttl ?c = 60000" by (simp add: cache_eval)
  have h1: "distinct (keys ?c)" and h3: "''c'' \<notin> set (keys ?c)"
    using c by (simp_all add: keys_def)
  have h2: "maxSize ?c = Num (of_nat (length (cache ?c)))" by (simp add: cache_eval)
  have m: "maxSize ?c = Num 2" and l: "length (cache ?c) = 2" by (simp_all add: cache_eval)
  have g: "Map_get (cache ?c) ''a'' = Some ?a \<and> \<not> 5 > expiry ?a" using c by simp
  from set_fresh_key_at_capacity [OF h1 h2 h3, of "Some 3" 7]
  have 1: "cache (set_entry ?c ''c'' (Some 3) 7) =
             tl (cache ?c) @ [(''c'', \<lparr>entry_value = Some 3, expiry = 7 + ttl ?c, timestamp = 7\<rparr>)]"
    and 2: "cache (snd (get ?c ''a'' 5)) = Map_delete ''a'' (cache ?c) @ [(''a'', ?a)]"
    using g by blast+
  from 1 2 show ?thesis using c t h1 l h3 m by (simp add: keys_def Map_delete_def)
qed

text \<open>
  Claim C10. When \<open>set(key, value)\<close> is called on a cache whose size equals \<open>maxSize\<close> and
  \<open>key\<close> is already present, the first (least recently used) entry is evicted anyway:
  unless \<open>key\<close> is that first entry, another key's entry is removed, \<open>key\<close> keeps its
  position, and the size afterwards is \<open>maxSize - 1\<close>; when \<open>key\<close> is the first entry, it
  is re-inserted last and the size stays \<open>maxSize\<close>.
\<close>

theorem set_existing_key_at_capacity:
  assumes "distinct (keys c)"
    and "maxSize c = Num (of_nat n)" and "length (cache c) = n"
    and "key \<in> set (keys c)"
  shows "cache (set_entry c key v now) =
           Map_set key \<lparr>entry_value = v, expiry = now + ttl c, timestamp = now\<rparr> (tl (cache c)) \<and>
         (key \<noteq> hd (keys c) \<longrightarrow>
            keys (set_entry c key v now) = tl (keys c) \<and>
            hd (keys c) \<notin> set (keys (set_entry c key v now)) \<and>
            length (cache (set_entry c key v now)) = n - 1) \<and>
         (key = hd (keys c) \<longrightarrow>
            keys (set_entry c key v now) = tl (keys c) @ [key] \<and>
            length (cache (set_entry c key v now)) = n)"
proof -
  from assms(4) obtain p rest where c: "cache c = p # rest"
    by (cases "cache c") (auto simp: keys_def)
  obtain k0 e0 where p: "p = (k0, e0)" by (cases p)
  have del: "Map_delete k0 (cache c) = rest"
    using assms(1) c p Map_delete_first [of k0 e0 rest] by (simp add: keys_def)
  have 1: "cache (set_entry c key v now) =
           Map_set key \<lparr>entry_value = v, expiry = now + ttl c, timestamp = now\<rparr> (tl (cache c))"
    using assms(2,3) c p del by (simp add: set_entry_def Let_def)
  have len: "length (cache (set_entry c key v now)) = length (keys (set_entry c key v now))"
    by (simp add: keys_def)
  have nodup: "k0 \<notin> set (map fst rest)"
    using assms(1) c p by (simp add: keys_def)
  have 2: "keys (set_entry c key v now) = tl (keys c) \<and>
           hd (keys c) \<notin> set (keys (set_entry c key v now)) \<and>
           length (cache (set_entry c key v now)) = n - 1"
    if ne: "key \<noteq> hd (keys c)"
  proof -
    have mem: "key \<in> set (map fst rest)"
      using ne assms(4) c p by (auto simp: keys_def)
    have k: "keys (set_entry c key v now) = tl (keys c)"
      using 1 c mem by (simp add: keys_def keys_Map_set)
    moreover have "hd (keys c) \<notin> set (tl (keys c))"
      using nodup c p by (simp add: keys_def)
    moreover have "length (cache (set_entry c key v now)) = n - 1"
    proof -
      have "length (cache (set_entry c key v now)) = length (tl (keys c))"
        using len k by simp
      then show ?thesis using assms(3) by (simp add: keys_def)
    qed
    ultimately show ?thesis by simp
  qed
  have 3: "keys (set_entry c key v now) = tl (keys c) @ [key] \<and>
           length (cache (set_entry c key v now)) = n"
    if eq: "key = hd (keys c)"
  proof -
    have "key \<notin> set (map fst rest)"
      using eq nodup c p by (simp add: keys_def)
    then have k: "keys (set_entry c key v now) = tl (keys c) @ [key]"
      using 1 c by (simp add: keys_def keys_Map_set)
    moreover have "length (cache (set_entry c key v now)) = length (tl (keys c) @ [key])"
      using len k by simp
    ultimately show ?thesis using assms(3) c by (simp add: keys_def)
  qed
  from 1 2 3 show ?thesis by blast
qed

theorem set_existing_key_at_capacity_witness:
  "distinct (keys (run_ops (new_LRUCache (Num 2) 1) [OpSet ''a'' (Some (1::nat)) 0, OpSet ''b'' (Some 2) 1])) \<and>
   maxSize (run_ops (new_LRUCache (Num 2) 1) [OpSet ''a'' (Some (1::nat)) 0, OpSet ''b'' (Some 2) 1]) = Num 2 \<and>
   length (cache (run_ops (new_LRUCache (Num 2) 1) [OpSet ''a'' (Some (1::nat)) 0, OpSet ''b'' (Some 2) 1])) = 2 \<and>
   ''b'' \<noteq> hd (keys (run_ops (new_LRUCache (Num 2) 1) [OpSet ''a'' (Some (1::nat)) 0, OpSet ''b'' (Some 2) 1])) \<and>
   keys (set_entry (run_ops (new_LRUCache (Num 2) 1) [OpSet ''a'' (Some (1::nat)) 0, OpSet ''b'' (Some 2) 1])
           ''b'' (Some 5) 7) = [''b''] \<and>
   keys (set_entry (run_ops (new_LRUCache (Num 2) 1) [OpSet ''a'' (Some (1::nat)) 0, OpSet ''b'' (Some 2) 1])
           ''a'' (Some 5) 7) = [''b'', ''a'']"
proof -
  let ?c = "run_ops (new_LRUCache (Num 2) 1) [OpSet ''a'' (Some (1::nat)) 0, OpSet ''b'' (Some 2) 1]"
  have k: "keys ?c = [''a'', ''b'']" by (simp add: cache_eval)
  have h1: "distinct (keys ?c)" and h3: "''b'' \<in> set (keys ?c)" and h3': "''a'' \<in> set (keys ?c)"
    using k by simp_all
  have m: "maxSize ?c = Num (of_nat 2)" and l: "length (cache ?c) = 2"
    by (simp_all add: cache_eval)
  from set_existing_key_at_capacity [OF h1 m l h3, of "Some 5" 7]
       set_existing_key_at_capacity [OF h1 m l h3', of "Some 5" 7]
  show ?thesis using k h1 l m by simp
qed

subsection \<open>Rounding to binary64 and to two decimals\<close>

lemma pow2_pos: "0 < pow2 e"
proof (cases "0 \<le> e")
  case True
  then show ?thesis unfolding pow2_def by simp
next
  case False
  then show ?thesis unfolding pow2_def by simp
qed

lemma pow2_add: "pow2 (a + b) = pow2 a * pow2 b"
proof -
  have "pow2 e = 2 powi e" for e
    unfolding pow2_def power_int_def by (simp add: power_one_over inverse_eq_divide)
  then show ?thesis by (simp add: power_int_add)
qed

lemma pow2_nat: "pow2 (int n) = 2 ^ n"
  by (simp add: pow2_def)

lemma pow2_mono: "a \<le> b \<Longrightarrow> pow2 a \<le> pow2 b"
proof -
  assume "a \<le> b"
  then obtain n where b: "b = a + int n" by (metis zle_iff_zadd)
  have "(1::rat) \<le> 2 ^ n" by simp
  then have "pow2 a * 1 \<le> pow2 a * 2 ^ n"
    using pow2_pos [of a] by (intro mult_left_mono) simp_all
  then show ?thesis unfolding b pow2_add pow2_nat by simp
qed

lemma bitlen_bounds:
  "0 < n \<Longrightarrow> 0 < bitlen n \<and> 2 ^ nat (bitlen n - 1) \<le> n \<and> n < 2 ^ nat (bitlen n)"
proof (induction n rule: bitlen.induct)
  case (1 n)
  show ?case
  proof (cases "n = 1")
    case True
    then show ?thesis by (simp add: bitlen.simps [of 1] bitlen.simps [of 0])
  next
    case False
    with "1.prems" have h: "0 < n div 2" by simp
    from "1.IH" [OF _ h] "1.prems"
    have ih: "0 < bitlen (n div 2)" "2 ^ nat (bitlen (n div 2) - 1) \<le> n div 2"
      "n div 2 < 2 ^ nat (bitlen (n div 2))" by simp_all
    have b: "bitlen n = 1 + bitlen (n div 2)" using "1.prems" by (simp add: bitlen.simps [of n])
    have e1: "nat (bitlen n - 1) = Suc (nat (bitlen (n div 2) - 1))" using b ih(1) by simp
    have e2: "nat (bitlen n) = Suc (nat (bitlen (n div 2)))" using b ih(1) by simp
    have "2 * 2 ^ nat (bitlen (n div 2) - 1) \<le> 2 * (n div 2)" using ih(2) by simp
    also have "\<dots> \<le> n" by simp
    finally have l: "2 ^ nat (bitlen n - 1) \<le> n" using e1 by simp
    have "n < 2 * (n div 2) + 2" by presburger
    also have "\<dots> \<le> 2 * 2 ^ nat (bitlen (n div 2))" using ih(3) by simp
    finally have u: "n < 2 ^ nat (bitlen n)" using e2 by simp
    show ?thesis using b ih(1) l u by simp
  qed
qed


lemma pow2_neg: "pow2 (- e) = 1 / pow2 e"
proof -
  have "pow2 (- e) * pow2 e = 1" using pow2_add [of "- e" e] by (simp add: pow2_def)
  then show ?thesis using pow2_pos [of e] by (simp add: field_simps)
qed

lemma of_int_bitlen:
  assumes "0 < n"
  shows "pow2 (bitlen n - 1) \<le> of_int n" and "of_int n < pow2 (bitlen n)"
proof -
  from bitlen_bounds [OF assms]
  have p: "0 < bitlen n" and l: "2 ^ nat (bitlen n - 1) \<le> n" and u: "n < 2 ^ nat (bitlen n)"
    by simp_all
  have "(of_int (2 ^ nat (bitlen n - 1)) :: rat) \<le> of_int n" using l by (simp only: of_int_le_iff)
  then show "pow2 (bitlen n - 1) \<le> of_int n" using p by (simp add: pow2_def)
  have "(of_int n :: rat) < of_int (2 ^ nat (bitlen n))" using u by (simp only: of_int_less_iff)
  then show "of_int n < pow2 (bitlen n)" using p by (simp add: pow2_def)
qed

lemma ilog2_bounds:
  assumes "0 < q"
  shows "pow2 (ilog2 q) \<le> q \<and> q < pow2 (ilog2 q + 1)"
proof -
  obtain a b where ab: "quotient_of q = (a, b)" by (cases "quotient_of q")
  then have b: "0 < b" and q: "q = of_int a / of_int b"
    by (simp_all add: quotient_of_denom_pos quotient_of_div)
  have a: "0 < a" using assms b q by (simp add: zero_less_divide_iff)
  let ?d = "bitlen a - bitlen b"
  note A = of_int_bitlen [OF a] and B = of_int_bitlen [OF b]
  have bq: "(0::rat) < of_int b" and aq: "(0::rat) < of_int a" using a b by simp_all
  have up: "q < pow2 (?d + 1)"
  proof -
    have "of_int a * pow2 (bitlen b - 1) \<le> of_int a * (of_int b :: rat)"
      using B(1) aq by (intro mult_left_mono) simp_all
    also have "\<dots> < pow2 (bitlen a) * of_int b"
      using A(2) bq by (intro mult_strict_right_mono) simp_all
    finally have "of_int a * pow2 (bitlen b - 1) < pow2 (bitlen a) * of_int b" .
    then have "q * pow2 (bitlen b - 1) < pow2 (bitlen a)"
      using bq unfolding q by (simp add: field_simps)
    also have "pow2 (bitlen a) = pow2 (?d + 1) * pow2 (bitlen b - 1)"
      using pow2_add [of "?d + 1" "bitlen b - 1"] by simp
    finally show ?thesis using pow2_pos [of "bitlen b - 1"] by simp
  qed
  have low: "pow2 (?d - 1) < q"
  proof -
    have "pow2 (?d - 1) * of_int b < pow2 (?d - 1) * pow2 (bitlen b)"
      using B(2) pow2_pos [of "?d - 1"] by (intro mult_strict_left_mono) simp_all
    also have "\<dots> = pow2 (bitlen a - 1)"
      using pow2_add [of "?d - 1" "bitlen b"] by simp
    also have "\<dots> \<le> of_int a" by (rule A(1))
    finally show ?thesis using bq unfolding q by (simp add: field_simps)
  qed
  show ?thesis
  proof (cases "pow2 ?d \<le> q")
    case True
    then have "ilog2 q = ?d" using ab by (simp add: ilog2_def Let_def)
    then show ?thesis using True up by simp
  next
    case False
    then have "ilog2 q = ?d - 1" using ab by (simp add: ilog2_def Let_def)
    then show ?thesis using False low by simp
  qed
qed

lemma round_ties_even_near: "\<bar>of_int (round_ties_even x) - x\<bar> \<le> 1 / 2"
proof -
  define f where "f = \<lfloor>x\<rfloor>"
  define d where "d = x - of_int f"
  define r where "r = round_ties_even x"
  have d: "0 \<le> d" "d < 1" unfolding d_def f_def by linarith+
  have x: "x = of_int f + d" unfolding d_def by simp
  have c: "(d < 1 / 2 \<and> r = f) \<or> (d > 1 / 2 \<and> r = f + 1) \<or> (d = 1 / 2 \<and> (r = f \<or> r = f + 1))"
    unfolding r_def round_ties_even_def Let_def f_def [symmetric] d_def [symmetric] by auto
  have "\<bar>of_int r - (of_int f + d)\<bar> \<le> 1 / 2"
    using c d by auto
  then show ?thesis unfolding r_def x [symmetric] .
qed

lemma fl64_error:
  assumes "0 < q"
  shows "\<bar>fl64 q - q\<bar> \<le> q / 2 ^ 53" and "0 \<le> fl64 q"
proof -
  let ?e = "ilog2 q"
  let ?u = "pow2 (?e - 52)"
  have u: "0 < ?u" by (rule pow2_pos)
  have f: "fl64 q = of_int (round_ties_even (q / ?u)) * ?u"
    using assms by (simp add: fl64_def Let_def)
  have "\<bar>fl64 q - q\<bar> = \<bar>of_int (round_ties_even (q / ?u)) - q / ?u\<bar> * ?u"
  proof -
    have "fl64 q - q = (of_int (round_ties_even (q / ?u)) - q / ?u) * ?u"
      using u f by (simp add: field_simps)
    then show ?thesis using u by (simp add: abs_mult)
  qed
  also have "\<dots> \<le> 1 / 2 * ?u"
    using round_ties_even_near [of "q / ?u"] u by (intro mult_right_mono) simp_all
  also have "?u = pow2 ?e * pow2 (- 52)" using pow2_add [of ?e "- 52"] by simp
  also have "pow2 (- 52) = 1 / 2 ^ 52" by (simp add: pow2_def)
  also have "1 / 2 * (pow2 ?e * (1 / 2 ^ 52)) = pow2 ?e / 2 ^ 53" by simp
  also have "\<dots> \<le> q / 2 ^ 53"
    using ilog2_bounds [OF assms] by (simp add: divide_right_mono)
  finally show "\<bar>fl64 q - q\<bar> \<le> q / 2 ^ 53" .
  have "1 \<le> q / ?u"
  proof -
    have "?u \<le> pow2 ?e" by (intro pow2_mono) simp
    also have "\<dots> \<le> q" using ilog2_bounds [OF assms] by simp
    finally show ?thesis using u by simp
  qed
  then have "0 \<le> \<lfloor>q / ?u\<rfloor>" by linarith
  then have "0 \<le> round_ties_even (q / ?u)"
    unfolding round_ties_even_def Let_def by auto
  then show "0 \<le> fl64 q" using f u by simp
qed

lemma percent_error:
  assumes "0 < t" and "h \<le> t"
  shows "\<bar>js_mul (js_div (of_nat h) (of_nat t)) 100 - 100 * of_nat h / of_nat t\<bar> \<le> 300 / 2 ^ 53"
proof (cases "h = 0")
  case True
  then show ?thesis by (simp add: js_mul_def js_div_def fl64_def)
next
  case False
  let ?q = "of_nat h / of_nat t :: rat"
  let ?x = "fl64 ?q"
  let ?d = "1 / 2 ^ 53 :: rat"
  have q0: "0 < ?q" using False assms by simp
  have q1: "?q \<le> 1" using assms by simp
  from fl64_error [OF q0] have e1: "\<bar>?x - ?q\<bar> \<le> ?q * ?d" and x0: "0 \<le> ?x" by simp_all
  have e2: "\<bar>fl64 (?x * 100) - ?x * 100\<bar> \<le> ?x * 100 * ?d"
  proof (cases "?x = 0")
    case True
    then show ?thesis by (simp add: fl64_def)
  next
    case False
    with x0 have "0 < ?x * 100" by simp
    from fl64_error(1) [OF this] show ?thesis by simp
  qed
  have xq: "?x \<le> ?q + ?q * ?d" using e1 by (simp add: abs_le_iff)
  have x2: "?x \<le> 2"
  proof -
    have "?q * ?d \<le> 1 * 1" using q0 q1 by (intro mult_mono) simp_all
    with xq q1 show ?thesis by simp
  qed
  have "\<bar>fl64 (?x * 100) - 100 * ?q\<bar> \<le> \<bar>fl64 (?x * 100) - ?x * 100\<bar> + 100 * \<bar>?x - ?q\<bar>"
    by (simp add: abs_le_iff) (auto simp: abs_if)
  also have "\<dots> \<le> ?x * 100 * ?d + 100 * (?q * ?d)" using e1 e2 by simp
  also have "\<dots> \<le> 2 * 100 * ?d + 100 * (1 * ?d)"
    using x2 q1 by (intro add_mono mult_left_mono mult_right_mono) simp_all
  also have "\<dots> = 300 / 2 ^ 53" by simp
  finally show ?thesis by (simp add: js_mul_def js_div_def)
qed

lemma fl64_nonneg: "0 \<le> q \<Longrightarrow> 0 \<le> fl64 q"
proof (cases "q = 0")
  case True
  then show ?thesis by (simp add: fl64_def)
next
  case False
  assume "0 \<le> q"
  with False have "0 < q" by simp
  then show ?thesis by (rule fl64_error(2))
qed

lemma percent_nonneg: "0 \<le> js_mul (js_div (of_nat h) (of_nat t)) 100"
proof -
  have "0 \<le> js_div (of_nat h) (of_nat t)"
    unfolding js_div_def by (intro fl64_nonneg) simp
  then show ?thesis unfolding js_mul_def by (intro fl64_nonneg) simp
qed

lemma toFixed2_near:
  assumes "0 \<le> x"
  shows "\<exists>n. 0 \<le> n \<and> toFixed2 x = fixed2 n \<and> \<bar>of_int n - 100 * x\<bar> \<le> 1 / 2"
proof -
  have "\<bar>of_int \<lfloor>x * 100 + 1 / 2\<rfloor> - 100 * x\<bar> \<le> 1 / 2" by linarith
  moreover have "0 \<le> \<lfloor>x * 100 + 1 / 2\<rfloor>" using assms by simp
  ultimately show ?thesis unfolding toFixed2_def by blast
qed

lemma nearest_exact:
  assumes near: "\<bar>of_int n - 10000 * of_nat h / (of_nat t :: rat)\<bar> \<le> 1 / 2 + 1 / 10 ^ 11"
    and pos: "0 < t" and small: "t \<le> 10 ^ 10"
  shows "\<bar>of_int n - 10000 * of_nat h / (of_nat t :: rat)\<bar> \<le> 1 / 2"
proof -
  define D :: int where "D = 2 * int t * n - 20000 * int h"
  let ?e = "of_int n - 10000 * of_nat h / (of_nat t :: rat)"
  have tpos: "(0::rat) < of_nat t" using pos by simp
  have eq: "(of_int D :: rat) = 2 * of_nat t * ?e"
    using tpos by (simp add: D_def field_simps)
  have ab: "\<bar>of_int D :: rat\<bar> = 2 * of_nat t * \<bar>?e\<bar>"
    unfolding eq using tpos by (simp add: abs_mult)
  also have "\<dots> \<le> 2 * of_nat t * (1 / 2 + 1 / 10 ^ 11)"
    using near tpos by (intro mult_left_mono) simp_all
  also have "\<dots> = of_nat t + of_nat t / (5 * 10 ^ 10)" by (simp add: field_simps)
  also have "\<dots> < of_nat t + 1"
  proof -
    have "(of_nat t :: rat) \<le> of_nat (10 ^ 10)" using small by (simp only: of_nat_le_iff)
    then have "(of_nat t :: rat) < 5 * 10 ^ 10" by simp
    then show ?thesis by simp
  qed
  finally have "(of_int \<bar>D\<bar> :: rat) < of_int (int t + 1)" by simp
  then have "\<bar>D\<bar> < int t + 1" by (simp only: of_int_less_iff)
  then have "\<bar>D\<bar> \<le> int t" by simp
  then have "(of_int \<bar>D\<bar> :: rat) \<le> of_int (int t)" by (simp only: of_int_le_iff)
  then have "of_nat t * (2 * \<bar>?e\<bar>) \<le> of_nat t * 1" using ab by simp
  then have "2 * \<bar>?e\<bar> \<le> 1" using tpos by (simp only: mult_le_cancel_left_pos)
  then show ?thesis by simp
qed

subsection \<open>The digits that \<open>toFixed\<close> prints\<close>

lemma nat_div10: "0 \<le> n \<Longrightarrow> nat n = 10 * nat (n div 10) + nat (n mod 10)"
proof -
  assume a: "0 \<le> n"
  then have "0 \<le> n div 10" by simp
  then have "int (10 * nat (n div 10) + nat (n mod 10)) = n" by simp
  then show ?thesis by (metis nat_int)
qed

lemma digit_code: "of_char (digit d) = (48 + nat (d mod 10) :: nat)"
proof -
  have "0 \<le> d mod 10" "d mod 10 < 10" by simp_all
  then consider "d mod 10 = 0" | "d mod 10 = 1" | "d mod 10 = 2" | "d mod 10 = 3" | "d mod 10 = 4"
    | "d mod 10 = 5" | "d mod 10 = 6" | "d mod 10 = 7" | "d mod 10 = 8" | "d mod 10 = 9"
    by atomize_elim arith
  then show ?thesis by cases (simp_all add: digit_def)
qed

lemma digit_is_digit: "is_decimal_digit (digit d)"
  by (simp add: is_decimal_digit_def digit_code)

lemma digit_minus_48: "of_char (digit d) - (48 :: nat) = nat (d mod 10)"
  by (simp add: digit_code)

lemma digits_value_snoc: "digits_value (ds @ [c]) = 10 * digits_value ds + (of_char c - 48)"
  by (simp add: digits_value_def)

lemma dec_small: "0 \<le> n \<Longrightarrow> n < 10 \<Longrightarrow> dec n = [digit n]"
  by (simp add: dec.simps [of n])

lemma dec_large: "\<not> n < 10 \<Longrightarrow> dec n = dec (n div 10) @ [digit (n mod 10)]"
  by (simp add: dec.simps [of n])

lemma dec_nonempty: "dec n \<noteq> []"
  by (cases "n < 10") (simp_all add: dec.simps [of n])

lemma dec_digits: "c \<in> set (dec n) \<Longrightarrow> is_decimal_digit c"
proof (induction n rule: dec.induct)
  case (1 n)
  show ?case
  proof (cases "n < 10")
    case True
    then have "dec n = [digit n]" by (simp add: dec.simps [of n])
    with "1.prems" show ?thesis by (simp add: digit_is_digit)
  next
    case False
    then have "dec n = dec (n div 10) @ [digit (n mod 10)]" by (rule dec_large)
    with "1.prems" have "c \<in> set (dec (n div 10)) \<or> c = digit (n mod 10)" by auto
    then show ?thesis using "1.IH" [OF False] by (auto simp: digit_is_digit)
  qed
qed

lemma digits_value_dec: "0 \<le> n \<Longrightarrow> digits_value (dec n) = nat n"
proof (induction n rule: dec.induct)
  case (1 n)
  show ?case
  proof (cases "n < 10")
    case True
    then have "dec n = [digit n]" by (simp add: dec.simps [of n])
    moreover have "n mod 10 = n" using True "1.prems" by simp
    ultimately show ?thesis by (simp add: digits_value_def digit_code)
  next
    case False
    then have d: "dec n = dec (n div 10) @ [digit (n mod 10)]" by (rule dec_large)
    have p: "0 \<le> n div 10" using "1.prems" by simp
    have "digits_value (dec n) = 10 * digits_value (dec (n div 10)) + nat (n mod 10 mod 10)"
      unfolding d digits_value_snoc digit_minus_48 ..
    also have "\<dots> = 10 * nat (n div 10) + nat (n mod 10)"
      using "1.IH" [OF False p] by simp
    also have "\<dots> = nat n" using nat_div10 [OF "1.prems"] by simp
    finally show ?thesis .
  qed
qed

lemma dec_leading: "0 < n \<Longrightarrow> hd (dec n) \<noteq> CHR ''0''"
proof (induction n rule: dec.induct)
  case (1 n)
  show ?case
  proof (cases "n < 10")
    case True
    then have d: "dec n = [digit n]" by (simp add: dec.simps [of n])
    have m: "n mod 10 = n" using True "1.prems" by simp
    have "of_char (digit n) \<noteq> (48 :: nat)" using m "1.prems" by (simp add: digit_code)
    then have "digit n \<noteq> CHR ''0''" by auto
    with d show ?thesis by simp
  next
    case False
    then have d: "dec n = dec (n div 10) @ [digit (n mod 10)]" by (rule dec_large)
    have p: "0 < n div 10" using False by simp
    have "hd (dec n) = hd (dec (n div 10))" unfolding d using dec_nonempty by simp
    then show ?thesis using "1.IH" [OF False p] by simp
  qed
qed

lemma hundredths_fixed2:
  assumes "0 \<le> n"
  shows "hundredths (fixed2 n @ ''%'') = Some (nat n)"
proof -
  let ?w = "dec (n div 100)"
  let ?a = "digit (n div 10)" and ?b = "digit n"
  have p: "0 \<le> n div 100" using assms by simp
  have s: "fixed2 n @ ''%'' = ?w @ [CHR ''.'', ?a, ?b, CHR ''%'']"
    by (simp add: fixed2_def)
  have nd: "\<not> is_decimal_digit CHR ''.''" by (simp add: is_decimal_digit_def)
  have tw: "takeWhile is_decimal_digit (fixed2 n @ ''%'') = ?w"
    unfolding s using dec_digits nd by (simp add: takeWhile_append2)
  have dw: "dropWhile is_decimal_digit (fixed2 n @ ''%'') = [CHR ''.'', ?a, ?b, CHR ''%'']"
    unfolding s using dec_digits nd by (simp add: dropWhile_append2)
  have lead: "length ?w = 1 \<or> hd ?w \<noteq> CHR ''0''"
  proof (cases "0 < n div 100")
    case True
    then show ?thesis using dec_leading by blast
  next
    case False
    with p have "n div 100 = 0" by simp
    then show ?thesis by (simp add: dec.simps [of 0])
  qed
  have h: "n div 10 div 10 = n div 100"
    using zdiv_zmult2_eq [of 10 n 10] by simp
  have "digits_value (?w @ [?a, ?b]) = digits_value ((?w @ [?a]) @ [?b])" by simp
  also have "\<dots> = 10 * (10 * digits_value ?w + nat (n div 10 mod 10)) + nat (n mod 10)"
    unfolding digits_value_snoc digit_minus_48 ..
  also have "\<dots> = 10 * (10 * nat (n div 10 div 10) + nat (n div 10 mod 10)) + nat (n mod 10)"
    using digits_value_dec [OF p] h by simp
  also have "\<dots> = 10 * nat (n div 10) + nat (n mod 10)"
    using nat_div10 [of "n div 10"] assms by simp
  also have "\<dots> = nat n" using nat_div10 [OF assms] by simp
  finally have val: "digits_value (?w @ [?a, ?b]) = nat n" .
  have "hundredths (fixed2 n @ ''%'') =
          (if CHR ''.'' = CHR ''.'' \<and> CHR ''%'' = CHR ''%'' \<and> is_decimal_digit ?a \<and> is_decimal_digit ?b \<and>
              ?w \<noteq> [] \<and> (length ?w = 1 \<or> hd ?w \<noteq> CHR ''0'')
           then Some (digits_value (?w @ [?a, ?b])) else None)"
    unfolding hundredths_def Let_def tw dw by simp
  then show ?thesis using lead val digit_is_digit dec_nonempty by simp
qed

lemma hitRate_near:
  assumes "0 < t" and "h \<le> t"
  shows "\<exists>n. hundredths (toFixed2 (js_mul (js_div (of_nat h) (of_nat t)) 100) @ ''%'') = Some n \<and>
           \<bar>of_nat n - 10000 * of_nat h / (of_nat t :: rat)\<bar> \<le> 1 / 2 + 1 / 10 ^ 11 \<and>
           (t \<le> 10 ^ 10 \<longrightarrow> \<bar>of_nat n - 10000 * of_nat h / (of_nat t :: rat)\<bar> \<le> 1 / 2)"
proof -
  let ?x = "js_mul (js_div (of_nat h) (of_nat t)) 100"
  let ?p = "100 * of_nat h / of_nat t :: rat"
  from toFixed2_near [OF percent_nonneg, of h t] obtain n where n0: "0 \<le> n"
    and n: "toFixed2 ?x = fixed2 n" and near: "\<bar>of_int n - 100 * ?x\<bar> \<le> 1 / 2" by blast
  have e: "\<bar>?x - ?p\<bar> \<le> 300 / 2 ^ 53" using assms by (rule percent_error)
  have "\<bar>of_int n - 100 * ?p\<bar> \<le> \<bar>of_int n - 100 * ?x\<bar> + 100 * \<bar>?x - ?p\<bar>"
    by (simp add: abs_le_iff) (auto simp: abs_if)
  also have "\<dots> \<le> 1 / 2 + 100 * (300 / 2 ^ 53)" using near e by simp
  also have "\<dots> \<le> 1 / 2 + 1 / 10 ^ 11" by simp
  finally have b: "\<bar>of_int n - 10000 * of_nat h / (of_nat t :: rat)\<bar> \<le> 1 / 2 + 1 / 10 ^ 11"
    by simp
  have r: "hundredths (toFixed2 ?x @ ''%'') = Some (nat n)"
    unfolding n using n0 by (rule hundredths_fixed2)
  have c: "(of_nat (nat n) :: rat) = of_int n" using n0 by simp
  have "t \<le> 10 ^ 10 \<longrightarrow> \<bar>of_int n - 10000 * of_nat h / (of_nat t :: rat)\<bar> \<le> 1 / 2"
    using nearest_exact [OF b assms(1)] by blast
  with r b show ?thesis unfolding c [symmetric] by blast
qed


subsection \<open>Counters\<close>

lemma counters_get:
  "(hits (snd (get c key now)) = hits c + 1 \<and> misses (snd (get c key now)) = misses c) \<or>
   (hits (snd (get c key now)) = hits c \<and> misses (snd (get c key now)) = misses c + 1)"
  by (simp add: get_def split: option.splits)

lemma calls_run_ops:
  "hits (run_ops c ops) + misses (run_ops c ops) = calls_since_clear (hits c + misses c) ops"
proof (induction ops arbitrary: c)
  case Nil
  then show ?case by (simp add: run_ops_def)
next
  case (Cons op ops)
  have step: "hits (run_ops (apply_op c op) ops) + misses (run_ops (apply_op c op) ops) =
              calls_since_clear (hits (apply_op c op) + misses (apply_op c op)) ops"
    by (rule Cons.IH)
  have run: "run_ops c (op # ops) = run_ops (apply_op c op) ops"
    by (simp add: run_ops_def)
  show ?case
  proof (cases op)
    case (OpGet key now)
    then show ?thesis using step run counters_get [of c key now] by auto
  next
    case (OpHas key now)
    then show ?thesis using step run counters_get [of c key now] by (auto simp: snd_has)
  next
    case (OpSet key v now)
    then show ?thesis using step run by (simp add: set_entry_def Let_def)
  next
    case (OpDelete key)
    then show ?thesis using step run by (simp add: delete_def)
  next
    case OpClear
    then show ?thesis using step run by (simp add: clear_def)
  qed
qed

text \<open>
  Claim C8. After any sequence of cache operations since the last \<open>clear()\<close>, \<open>getStats()\<close>
  reports \<open>hits + misses\<close> equal to the number of \<open>get\<close> and \<open>has\<close> calls made; each such
  call increments exactly one of the two counters; \<open>hitRate\<close> is \<open>0.00%\<close> when no \<open>get\<close> or
  \<open>has\<close> call has been made; and otherwise \<open>hitRate\<close> is a numeral with two decimals and a
  trailing percent sign that denotes the ratio \<open>hits / (hits + misses)\<close>, as a percentage,
  rounded to a nearest hundredth (either of the two when the ratio lies halfway between
  them). The rounding is exact for up to \<open>10\<^sup>1\<^sup>0\<close> calls; for more calls the numeral is
  still within half a hundredth and \<open>10\<^sup>-\<^sup>1\<^sup>3\<close> of the exact percentage, the arithmetic being
  that of binary64.
\<close>

theorem getStats_counts_calls:
  "st_hits (getStats (run_ops (clear c) ops)) + st_misses (getStats (run_ops (clear c) ops))
     = calls_since_clear 0 ops \<and>
   (calls_since_clear 0 ops = 0 \<longrightarrow> hitRate (getStats (run_ops (clear c) ops)) = ''0.00%'') \<and>
   (0 < calls_since_clear 0 ops \<longrightarrow>
    (\<exists>n. hundredths (hitRate (getStats (run_ops (clear c) ops))) = Some n \<and>
         \<bar>of_nat n - 10000 * of_nat (st_hits (getStats (run_ops (clear c) ops)))
                         / (of_nat (calls_since_clear 0 ops) :: rat)\<bar>
           \<le> 1 / 2 + 1 / 10 ^ 11 \<and>
         (calls_since_clear 0 ops \<le> 10 ^ 10 \<longrightarrow>
          \<bar>of_nat n - 10000 * of_nat (st_hits (getStats (run_ops (clear c) ops)))
                          / (of_nat (calls_since_clear 0 ops) :: rat)\<bar>
            \<le> 1 / 2))) \<and>
   ((hits (snd (get c key now)) = hits c + 1 \<and> misses (snd (get c key now)) = misses c) \<or>
    (hits (snd (get c key now)) = hits c \<and> misses (snd (get c key now)) = misses c + 1)) \<and>
   ((hits (snd (has c key now)) = hits c + 1 \<and> misses (snd (has c key now)) = misses c) \<or>
    (hits (snd (has c key now)) = hits c \<and> misses (snd (has c key now)) = misses c + 1))"
proof -
  let ?c = "run_ops (clear c) ops"
  let ?n = "calls_since_clear 0 ops"
  have total: "hits ?c + misses ?c = ?n"
    using calls_run_ops [of "clear c" ops] by (simp add: clear_def)
  have sh: "st_hits (getStats ?c) = hits ?c" and sm: "st_misses (getStats ?c) = misses ?c"
    by (simp_all add: getStats_def Let_def)
  have rate: "hitRate (getStats ?c) =
     (if ?n = 0 then ''0.00%''
      else toFixed2 (js_mul (js_div (of_nat (hits ?c)) (of_nat ?n)) 100) @ ''%'')"
    using total by (simp add: getStats_def Let_def)
  have zero: "?n = 0 \<longrightarrow> hitRate (getStats ?c) = ''0.00%''"
    using rate by simp
  have near: "0 < ?n \<longrightarrow>
    (\<exists>n. hundredths (hitRate (getStats ?c)) = Some n \<and>
         \<bar>of_nat n - 10000 * of_nat (hits ?c) / (of_nat ?n :: rat)\<bar> \<le> 1 / 2 + 1 / 10 ^ 11 \<and>
         (?n \<le> 10 ^ 10 \<longrightarrow>
          \<bar>of_nat n - 10000 * of_nat (hits ?c) / (of_nat ?n :: rat)\<bar> \<le> 1 / 2))"
  proof
    assume pos: "0 < ?n"
    have le: "hits ?c \<le> ?n" using total by linarith
    have r: "hitRate (getStats ?c) = toFixed2 (js_mul (js_div (of_nat (hits ?c)) (of_nat ?n)) 100) @ ''%''"
      using rate pos by simp
    from hitRate_near [OF pos le] show "\<exists>n. hundredths (hitRate (getStats ?c)) = Some n \<and>
         \<bar>of_nat n - 10000 * of_nat (hits ?c) / (of_nat ?n :: rat)\<bar> \<le> 1 / 2 + 1 / 10 ^ 11 \<and>
         (?n \<le> 10 ^ 10 \<longrightarrow>
          \<bar>of_nat n - 10000 * of_nat (hits ?c) / (of_nat ?n :: rat)\<bar> \<le> 1 / 2)"
      unfolding r .
  qed
  have cg: "(hits (snd (get c key now)) = hits c + 1 \<and> misses (snd (get c key now)) = misses c) \<or>
    (hits (snd (get c key now)) = hits c \<and> misses (snd (get c key now)) = misses c + 1)"
    by (rule counters_get)
  have t: "st_hits (getStats ?c) + st_misses (getStats ?c) = ?n"
    unfolding sh sm by (rule total)
  show ?thesis
    unfolding snd_has
    by (intro conjI t zero cg) (use near in \<open>simp only: sh\<close>)
qed

theorem getStats_counts_calls_witness:
  "st_hits (getStats (run_ops (clear (new_LRUCache (Num 2) 1))
       [OpSet ''a'' (Some (1::nat)) 0, OpGet ''a'' 1, OpHas ''b'' 2, OpGet ''a'' 3])) = 2 \<and>
   st_misses (getStats (run_ops (clear (new_LRUCache (Num 2) 1))
       [OpSet ''a'' (Some (1::nat)) 0, OpGet ''a'' 1, OpHas ''b'' 2, OpGet ''a'' 3])) = 1 \<and>
   0 < calls_since_clear 0 [OpSet ''a'' (Some (1::nat)) 0, OpGet ''a'' 1, OpHas ''b'' 2, OpGet ''a'' 3] \<and>
   calls_since_clear 0 [OpSet ''a'' (Some (1::nat)) 0, OpGet ''a'' 1, OpHas ''b'' 2, OpGet ''a'' 3]
     \<le> 10 ^ 10 \<and>
   hitRate (getStats (run_ops (clear (new_LRUCache (Num 2) 1))
       [OpSet ''a'' (Some (1::nat)) 0, OpGet ''a'' 1, OpHas ''b'' 2, OpGet ''a'' 3])) = ''66.67%'' \<and>
   hundredths ''66.67%'' = Some 6667 \<and>
   \<bar>of_nat 6667 - 10000 * of_nat 2 / (of_nat 3 :: rat)\<bar> \<le> 1 / 2 \<and>
   calls_since_clear 0 [OpSet ''a'' (Some (1::nat)) 0] = 0 \<and>
   hitRate (getStats (run_ops (clear (new_LRUCache (Num 2) 1)) [OpSet ''a'' (Some (1::nat)) 0]))
     = ''0.00%''"
proof -
  let ?ops = "[OpSet ''a'' (Some (1::nat)) 0, OpGet ''a'' 1, OpHas ''b'' 2, OpGet ''a'' 3]"
  let ?c = "run_ops (clear (new_LRUCache (Num 2) 1)) ?ops"
  let ?z = "run_ops (clear (new_LRUCache (Num 2) 1)) [OpSet ''a'' (Some (1::nat)) 0]"
  have h: "st_hits (getStats ?c) = 2" by code_simp
  have n: "calls_since_clear 0 ?ops = 3" by simp
  have n0: "calls_since_clear 0 [OpSet ''a'' (Some (1::nat)) 0] = 0" by simp
  have r: "hitRate (getStats ?c) = ''66.67%''" by code_simp
  have v: "hundredths ''66.67%'' = Some 6667" by code_simp
  note T = getStats_counts_calls [of "new_LRUCache (Num 2) 1" ?ops "''a''" 0]
  note T0 = getStats_counts_calls [of "new_LRUCache (Num 2) 1" "[OpSet ''a'' (Some (1::nat)) 0]" "''a''" 0]
  have A: "st_hits (getStats ?c) + st_misses (getStats ?c) = 3"
    using T [THEN conjunct1] unfolding n .
  from T [THEN conjunct2, THEN conjunct2, THEN conjunct1] obtain k where
    k: "hundredths (hitRate (getStats ?c)) = Some k"
    and b: "\<bar>of_nat k - 10000 * of_nat (st_hits (getStats ?c)) / (of_nat 3 :: rat)\<bar> \<le> 1 / 2"
    unfolding n by auto
  from k r v have "k = 6667" by simp
  with b h have B: "\<bar>of_nat 6667 - 10000 * of_nat 2 / (of_nat 3 :: rat)\<bar> \<le> 1 / 2" by simp
  have Z: "hitRate (getStats ?z) = ''0.00%''"
    using T0 [THEN conjunct2, THEN conjunct1] n0 by blast
  from A h have "st_misses (getStats ?c) = 1" by simp
  with h n n0 r v B Z show ?thesis by simp
qed

section \<open>The rate limiter: bounded list, sliding window\<close>

lemma cleanupExpired_simps:
  "maxRequests (cleanupExpired r now) = maxRequests r"
  "windowMs (cleanupExpired r now) = windowMs r"
  "logger (cleanupExpired r now) = logger r"
  "requests (cleanupExpired r now) = filter (\<lambda>time. now - time < windowMs r) (requests r)"
  by (simp_all add: cleanupExpired_def)

lemma cleanup_within_cap:
  "length (requests r) \<le> maxRequests r \<Longrightarrow> cleanup r now = cleanupExpired r now"
proof -
  assume a: "length (requests r) \<le> maxRequests r"
  have "length (requests (cleanupExpired r now)) \<le> length (requests r)"
    by (simp add: cleanupExpired_simps)
  with a have "length (requests (cleanupExpired r now)) \<le> maxRequests r * 10"
    by linarith
  then have "\<not> length (requests (cleanupExpired r now)) > maxRequests (cleanupExpired r now) * 10"
    by (simp only: cleanupExpired_simps not_less)
  then show ?thesis by (simp add: cleanup_def Let_def)
qed

lemma cleanup_simps:
  assumes "length (requests r) \<le> maxRequests r"
  shows "maxRequests (cleanup r now) = maxRequests r"
    and "windowMs (cleanup r now) = windowMs r"
    and "logger (cleanup r now) = logger r"
    and "requests (cleanup r now) = filter (\<lambda>time. now - time < windowMs r) (requests r)"
  using cleanup_within_cap [OF assms, of now] by (simp_all add: cleanupExpired_simps)

lemma stretch_invariant:
  assumes "length (requests r) \<le> maxRequests r" and "filter is_ArrayCapped (logger r) = []"
  shows "length (requests (snd (acquire_stretch r depth now))) \<le> maxRequests r \<and>
         filter is_ArrayCapped (logger (snd (acquire_stretch r depth now))) = [] \<and>
         maxRequests (snd (acquire_stretch r depth now)) = maxRequests r \<and>
         windowMs (snd (acquire_stretch r depth now)) = windowMs r"
proof -
  note cs = cleanup_simps [OF assms(1), of now]
  have len1: "length (requests (cleanup r now)) \<le> maxRequests r"
    using assms(1) le_trans [OF length_filter_le] by (simp add: cs)
  show ?thesis
    using assms len1 cs by (auto simp: acquire_stretch_def Let_def)
qed

lemma acquire_invariant:
  "length (requests r) \<le> maxRequests r \<Longrightarrow> filter is_ArrayCapped (logger r) = [] \<Longrightarrow>
   acquire r late depth now = (res, r', now', waits) \<Longrightarrow>
   length (requests r') \<le> maxRequests r' \<and> filter is_ArrayCapped (logger r') = [] \<and>
   maxRequests r' = maxRequests r \<and> windowMs r' = windowMs r"
proof (induction r late depth now arbitrary: res r' now' waits rule: acquire.induct)
  case (1 r late depth now)
  obtain step r1 where st: "acquire_stretch r depth now = (step, r1)"
    by (cases "acquire_stretch r depth now")
  from stretch_invariant [OF "1.prems"(1,2), of depth now] st
  have inv1: "length (requests r1) \<le> maxRequests r1" "filter is_ArrayCapped (logger r1) = []"
    "maxRequests r1 = maxRequests r" "windowMs r1 = windowMs r"
    by simp_all
  show ?case
  proof (cases step)
    case Acquired
    then have "r' = r1" using "1.prems"(3) st by (simp add: acquire.simps [of r])
    then show ?thesis using inv1 by simp
  next
    case (Failed error)
    then have "r' = r1" using "1.prems"(3) st by (simp add: acquire.simps [of r])
    then show ?thesis using inv1 by simp
  next
    case (Suspended waitTime)
    let ?t = "now + timer_delay waitTime + int (late depth)"
    obtain res2 r3 now3 waits3 where rec: "acquire r1 late (depth + 1) ?t = (res2, r3, now3, waits3)"
      by (cases "acquire r1 late (depth + 1) ?t") auto
    have "r' = r3" using "1.prems"(3) st Suspended rec by (simp add: acquire.simps [of r])
    moreover have "length (requests r3) \<le> maxRequests r3 \<and> filter is_ArrayCapped (logger r3) = [] \<and>
          maxRequests r3 = maxRequests r1 \<and> windowMs r3 = windowMs r1"
      using "1.IH" [OF st [symmetric] Suspended inv1(1,2) rec] .
    ultimately show ?thesis using inv1 by simp
  qed
qed


lemma apply_limiter_op_invariant:
  assumes "length (requests r) \<le> maxRequests r" and "filter is_ArrayCapped (logger r) = []"
  shows "length (requests (apply_limiter_op r op)) \<le> maxRequests (apply_limiter_op r op) \<and>
         filter is_ArrayCapped (logger (apply_limiter_op r op)) = [] \<and>
         maxRequests (apply_limiter_op r op) = maxRequests r \<and>
         windowMs (apply_limiter_op r op) = windowMs r"
proof (cases op)
  case (OpAcquire late now)
  obtain res r' now' waits where a: "acquire r late 0 now = (res, r', now', waits)"
    by (cases "acquire r late 0 now") auto
  from acquire_invariant [OF assms a] show ?thesis using OpAcquire a by simp
next
  case (OpAcquireStretch depth now)
  from stretch_invariant [OF assms, of depth now] show ?thesis using OpAcquireStretch by simp
next
  case (OpCleanup now)
  have "length (filter (\<lambda>time. now - time < windowMs r) (requests r)) \<le> maxRequests r"
    using assms(1) le_trans [OF length_filter_le] by blast
  then show ?thesis using OpCleanup assms by (simp add: cleanup_simps)
next
  case (OpCanRequest now)
  have "length (filter (\<lambda>time. now - time < windowMs r) (requests r)) \<le> maxRequests r"
    using assms(1) le_trans [OF length_filter_le] by blast
  then show ?thesis using OpCanRequest assms by (simp add: canRequest_def Let_def cleanupExpired_simps)
next
  case (OpGetStatus now)
  have "length (filter (\<lambda>time. now - time < windowMs r) (requests r)) \<le> maxRequests r"
    using assms(1) le_trans [OF length_filter_le] by blast
  then show ?thesis using OpGetStatus assms by (simp add: getStatus_def Let_def cleanupExpired_simps)
next
  case OpReset
  then show ?thesis using assms by (simp add: reset_def)
qed

lemma run_limiter_invariant:
  "length (requests r) \<le> maxRequests r \<Longrightarrow> filter is_ArrayCapped (logger r) = [] \<Longrightarrow>
   length (requests (run_limiter r ops)) \<le> maxRequests r \<and>
   filter is_ArrayCapped (logger (run_limiter r ops)) = [] \<and>
   maxRequests (run_limiter r ops) = maxRequests r"
proof (induction ops arbitrary: r)
  case Nil
  then show ?case by (simp add: run_limiter_def)
next
  case (Cons op ops)
  note step = apply_limiter_op_invariant [OF Cons.prems, of op]
  have "length (requests (run_limiter (apply_limiter_op r op) ops)) \<le> maxRequests (apply_limiter_op r op) \<and>
        filter is_ArrayCapped (logger (run_limiter (apply_limiter_op r op) ops)) = [] \<and>
        maxRequests (run_limiter (apply_limiter_op r op) ops) = maxRequests (apply_limiter_op r op)"
    using step by (intro Cons.IH) simp_all
  then show ?case using step by (simp add: run_limiter_def)
qed

text \<open>
  Claim C9. For every sequence of \<open>acquire\<close>, \<open>cleanup\<close>, \<open>canRequest\<close>, \<open>getStatus\<close> and
  \<open>reset\<close> operations on a new rate limiter, at any times and with any timer lateness,
  also when other operations run while an \<open>acquire\<close> call waits for its timer, the list
  of recorded timestamps holds at most \<open>maxRequests\<close> entries after each operation, and
  the hard-cap branch of \<open>cleanup()\<close> is never taken: its warning is never logged.
\<close>

theorem requests_never_exceed_maxRequests:
  "length (requests (run_limiter (new_RateLimiter N W) ops)) \<le> N \<and>
   filter is_ArrayCapped (logger (run_limiter (new_RateLimiter N W) ops)) = []"
  using run_limiter_invariant [of "new_RateLimiter N W" ops]
  by (simp add: new_RateLimiter_def)

theorem requests_never_exceed_maxRequests_witness:
  "length (requests (run_limiter (new_RateLimiter 2 1000)
      [OpAcquire (\<lambda>d. 0) 5, OpAcquire (\<lambda>d. 0) 5, OpAcquireStretch 0 6, OpCanRequest 7,
       OpAcquireStretch 0 8, OpAcquireStretch 1 1006, OpAcquireStretch 1 1008,
       OpGetStatus 1200])) = 2 \<and>
   filter is_ArrayCapped (logger (run_limiter (new_RateLimiter 2 1000)
      [OpAcquire (\<lambda>d. 0) 5, OpAcquire (\<lambda>d. 0) 5, OpAcquireStretch 0 6, OpCanRequest 7,
       OpAcquireStretch 0 8, OpAcquireStretch 1 1006, OpAcquireStretch 1 1008,
       OpGetStatus 1200])) = []"
proof -
  have "length (requests (run_limiter (new_RateLimiter 2 1000)
      [OpAcquire (\<lambda>d. 0) 5, OpAcquire (\<lambda>d. 0) 5, OpAcquireStretch 0 6, OpCanRequest 7,
       OpAcquireStretch 0 8, OpAcquireStretch 1 1006, OpAcquireStretch 1 1008,
       OpGetStatus 1200])) = 2"
    by code_simp
  then show ?thesis
    using requests_never_exceed_maxRequests [of 2 1000
      "[OpAcquire (\<lambda>d. 0) 5, OpAcquire (\<lambda>d. 0) 5, OpAcquireStretch 0 6, OpCanRequest 7,
       OpAcquireStretch 0 8, OpAcquireStretch 1 1006, OpAcquireStretch 1 1008,
       OpGetStatus 1200]"]
    by simp
qed

lemma stretch_free_slot:
  assumes "length (requests r) \<le> maxRequests r"
    and "length (filter (\<lambda>time. now - time < windowMs r) (requests r)) < maxRequests r"
    and "depth < MAX_RECURSION_DEPTH"
  shows "acquire_stretch r depth now =
           (Acquired,
            (cleanup r now)\<lparr>requests := filter (\<lambda>time. now - time < windowMs r) (requests r) @ [now]\<rparr>)"
  using assms cleanup_simps [OF assms(1), of now]
  by (simp add: acquire_stretch_def Let_def ENABLE_RATE_LIMITING_def)

lemma stretch_no_slot:
  assumes "length (requests r) \<le> maxRequests r"
    and "maxRequests r \<le> length (filter (\<lambda>time. now - time < windowMs r) (requests r))"
    and "depth < MAX_RECURSION_DEPTH"
  shows "acquire_stretch r depth now =
           (Suspended (waitTime_of (cleanup r now) now),
            (cleanup r now)\<lparr>logger := logger (cleanup r now) @
               [RateLimitReached (length (requests (cleanup r now))) (maxRequests (cleanup r now))
                  (waitTime_of (cleanup r now) now)]\<rparr>)"
  using assms cleanup_simps [OF assms(1), of now]
  by (simp add: acquire_stretch_def Let_def ENABLE_RATE_LIMITING_def)

lemma acquire_free_slot:
  assumes "length (requests r) \<le> maxRequests r"
    and "length (filter (\<lambda>time. now - time < windowMs r) (requests r)) < maxRequests r"
    and "depth < MAX_RECURSION_DEPTH"
  shows "acquire r late depth now =
           (Inr (), (cleanup r now)\<lparr>requests := filter (\<lambda>time. now - time < windowMs r) (requests r) @ [now]\<rparr>,
            now, [])"
  using stretch_free_slot [OF assms] by (simp add: acquire.simps [of r])

lemma filter_later:
  assumes "(now :: int) \<le> T"
  shows "filter (\<lambda>t. T - t < W) (filter (\<lambda>t. now - t < W) xs) = filter (\<lambda>t. T - t < W) xs"
proof -
  have "\<And>t. T - t < W \<Longrightarrow> now - t < W" using assms by linarith
  then show ?thesis by (induction xs) auto
qed

lemma acquire_completes:
  assumes N: "0 < maxRequests r" and len: "length (requests r) \<le> maxRequests r"
    and W: "windowMs r \<le> TIMEOUT_MAX" and past: "\<forall>t \<in> set (requests r). t \<le> now"
  shows "\<exists>r' T ws. acquire r late 0 now = (Inr (), r', T, ws) \<and> now \<le> T \<and>
           requests r' = filter (\<lambda>t. T - t < windowMs r) (requests r) @ [T] \<and>
           maxRequests r' = maxRequests r \<and> windowMs r' = windowMs r \<and>
           length (requests r') \<le> maxRequests r"
proof -
  let ?W = "windowMs r"
  let ?L = "filter (\<lambda>t. now - t < ?W) (requests r)"
  note cs = cleanup_simps [OF len, of now]
  have lenL: "length ?L \<le> maxRequests r"
    using len le_trans [OF length_filter_le] by blast
  show ?thesis
  proof (cases "length ?L < maxRequests r")
    case True
    from acquire_free_slot [OF len True, of 0 late] True cs show ?thesis
      by (simp add: MAX_RECURSION_DEPTH_def)
  next
    case False
    with lenL have full: "length ?L = maxRequests r" by linarith
    with N obtain oldest rest where L: "?L = oldest # rest" by (cases ?L) auto
    let ?r1 = "cleanup r now"
    have r1: "requests ?r1 = oldest # rest" using cs L by simp
    let ?w = "waitTime_of ?r1 now"
    have wt: "?w = Some (?W - (now - oldest))" using r1 cs by (simp add: waitTime_of_def)
    let ?r2 = "?r1\<lparr>logger := logger ?r1 @
                 [RateLimitReached (length (requests ?r1)) (maxRequests ?r1) ?w]\<rparr>"
    let ?T = "now + timer_delay ?w + int (late 0)"
    have "oldest \<in> set ?L" unfolding L by simp
    then have o1: "now - oldest < ?W" and o2: "oldest \<le> now" using past by simp_all
    have range: "0 \<le> ?W - (now - oldest)" "?W - (now - oldest) \<le> TIMEOUT_MAX"
      using o1 o2 W by linarith+
    have T1: "now \<le> ?T" by (simp add: timer_delay_def split: option.splits)
    have T2: "\<not> ?T - oldest < ?W" using wt range by (simp add: timer_delay_def)
    have len2: "length (requests ?r2) \<le> maxRequests ?r2" using r1 L lenL cs by simp
    have f2: "filter (\<lambda>t. ?T - t < windowMs ?r2) (requests ?r2) = filter (\<lambda>t. ?T - t < ?W) rest"
      using r1 cs T2 by simp
    have "length (filter (\<lambda>t. ?T - t < ?W) rest) \<le> length rest" by simp
    also have "\<dots> < maxRequests r" using full L by simp
    finally have free2: "length (filter (\<lambda>t. ?T - t < windowMs ?r2) (requests ?r2)) < maxRequests ?r2"
      using f2 cs by simp
    let ?r3 = "(cleanup ?r2 ?T)\<lparr>requests := filter (\<lambda>t. ?T - t < windowMs ?r2) (requests ?r2) @ [?T]\<rparr>"
    have a2: "acquire ?r2 late (0 + 1) ?T = (Inr (), ?r3, ?T, [])"
      using acquire_free_slot [OF len2 free2, of "0 + 1" late] by (simp add: MAX_RECURSION_DEPTH_def)
    have blocked: "maxRequests r \<le> length ?L" using full by simp
    have a: "acquire r late 0 now = (Inr (), ?r3, ?T, [?w])"
      using stretch_no_slot [OF len blocked, of 0] a2
      by (simp add: acquire.simps [of r] MAX_RECURSION_DEPTH_def)
    have "filter (\<lambda>t. ?T - t < ?W) (requests r) = filter (\<lambda>t. ?T - t < ?W) ?L"
      using filter_later [OF T1, of ?W "requests r"] by simp
    also have "\<dots> = filter (\<lambda>t. ?T - t < ?W) rest" using L T2 by simp
    finally have req: "requests ?r3 = filter (\<lambda>t. ?T - t < ?W) (requests r) @ [?T]"
      using f2 by simp
    have m3: "maxRequests ?r3 = maxRequests r" and w3: "windowMs ?r3 = ?W"
      using cleanup_simps [OF len2, of ?T] cs by simp_all
    have l3: "length (requests ?r3) \<le> maxRequests r"
      using free2 cs by simp
    from a T1 req m3 w3 l3 show ?thesis by blast
  qed
qed

lemma window_inv_step:
  assumes inv: "window_inv W t1 k xs now" and later: "now \<le> T"
  shows "window_inv W t1 (k + 1) (filter (\<lambda>t. T - t < W) xs @ [T]) T"
proof (cases "t1 + W \<le> T")
  case True
  then show ?thesis using inv later by (simp add: window_inv_def)
next
  case False
  with inv later obtain A B where xs: "xs = A @ B" and lB: "length B = k" and ne: "B \<noteq> []"
    and hdB: "hd B = t1" and ge: "\<forall>t \<in> set B. t1 \<le> t" and t1: "t1 \<le> now"
    by (auto simp: window_inv_def)
  have "\<forall>t \<in> set B. T - t < W" using ge False by fastforce
  then have keep: "filter (\<lambda>t. T - t < W) B = B" by simp
  let ?A = "filter (\<lambda>t. T - t < W) A" and ?B = "B @ [T]"
  have "filter (\<lambda>t. T - t < W) xs @ [T] = ?A @ ?B" using xs keep by simp
  moreover have "length ?B = k + 1" using lB by simp
  moreover have "?B \<noteq> []" by simp
  moreover have "hd ?B = t1" using ne hdB by simp
  moreover have "\<forall>t \<in> set ?B. t1 \<le> t" using ge t1 later by auto
  ultimately show ?thesis using t1 later unfolding window_inv_def by (metis order_trans)
qed

lemma acquire_seq_keeps_window:
  assumes "0 < maxRequests r" and "length (requests r) \<le> maxRequests r"
    and "window_inv (windowMs r) t1 k (requests r) now"
    and "windowMs r \<le> TIMEOUT_MAX" and "\<forall>t \<in> set (requests r). t \<le> now"
  shows "\<exists>rs r' t'. acquire_seq r now calls = (rs, r', t') \<and> length rs = length calls \<and>
           (\<forall>x \<in> set rs. fst x = Inr ()) \<and>
           (calls \<noteq> [] \<longrightarrow> t' = snd (last rs)) \<and> (calls = [] \<longrightarrow> t' = now) \<and>
           maxRequests r' = maxRequests r \<and> windowMs r' = windowMs r \<and>
           length (requests r') \<le> maxRequests r \<and>
           window_inv (windowMs r) t1 (k + length calls) (requests r') t'"
  using assms
proof (induction calls arbitrary: r now k)
  case Nil
  then show ?case by simp
next
  case (Cons call calls)
  obtain gap late where call: "call = (gap, late)" by (cases call)
  have past: "\<forall>t \<in> set (requests r). t \<le> now + int gap"
    using Cons.prems(5) by fastforce
  from acquire_completes [OF Cons.prems(1,2,4) past, of late]
  obtain r1 T ws where a: "acquire r late 0 (now + int gap) = (Inr (), r1, T, ws)"
    and T: "now + int gap \<le> T"
    and req: "requests r1 = filter (\<lambda>t. T - t < windowMs r) (requests r) @ [T]"
    and m1: "maxRequests r1 = maxRequests r" and w1: "windowMs r1 = windowMs r"
    and l1: "length (requests r1) \<le> maxRequests r"
    by blast
  have later: "now \<le> T" using T by simp
  have inv1: "window_inv (windowMs r1) t1 (k + 1) (requests r1) T"
    using window_inv_step [OF Cons.prems(3) later] req w1 by simp
  have N1: "0 < maxRequests r1" and len1: "length (requests r1) \<le> maxRequests r1"
    and W1: "windowMs r1 \<le> TIMEOUT_MAX"
    using Cons.prems(1,4) m1 w1 l1 by simp_all
  have past1: "\<forall>t \<in> set (requests r1). t \<le> T"
    unfolding req using past T by fastforce
  from Cons.IH [OF N1 len1 inv1 W1 past1]
  obtain rs r' t' where s: "acquire_seq r1 T calls = (rs, r', t')"
    and l: "length rs = length calls" and oks: "\<forall>x \<in> set rs. fst x = Inr ()"
    and tl: "calls \<noteq> [] \<longrightarrow> t' = snd (last rs)" and tn: "calls = [] \<longrightarrow> t' = T"
    and m': "maxRequests r' = maxRequests r1" and w': "windowMs r' = windowMs r1"
    and l': "length (requests r') \<le> maxRequests r1"
    and inv': "window_inv (windowMs r1) t1 (k + 1 + length calls) (requests r') t'"
    by blast
  have "acquire_seq r now (call # calls) = ((Inr (), T) # rs, r', t')"
    using call a s by simp
  moreover have "t' = snd (last ((Inr (), T) # rs))"
    using tl tn l by (cases calls) auto
  ultimately show ?case
    using l oks m' w' l' inv' m1 w1 by simp
qed

text \<open>
  Claim C6, as amended. For a rate limiter with \<open>maxRequests = N\<close>, where \<open>N\<close> is an integer
  that is at least 1, and \<open>windowMs = W\<close>, where \<open>W\<close> is an integer number of milliseconds
  that is at most 2147483647 (the longest delay that a timer of the host waits for),
  holding at most \<open>N\<close> timestamps, none of them later than the present time: when
  \<open>N + 1\<close> calls of \<open>acquire()\<close> are issued one after the other, every call completes
  normally, the first call records the time at which it completes, and the \<open>(N+1)\<close>-th
  call completes no earlier than \<open>W\<close> milliseconds after that recorded timestamp. The
  gaps between the calls and the lateness of the timers are arbitrary.
\<close>

theorem acquire_waits_for_window:
  assumes "0 < maxRequests r" and "windowMs r \<le> TIMEOUT_MAX"
    and "length (requests r) \<le> maxRequests r" and "\<forall>t \<in> set (requests r). t \<le> t0"
    and "length calls = maxRequests r"
  shows "\<exists>rs r' t'.
           acquire_seq r t0 ((gap, late) # calls) = (rs, r', t') \<and>
           length rs = maxRequests r + 1 \<and>
           (\<forall>x \<in> set rs. fst x = Inr ()) \<and>
           last (requests (fst (snd (acquire r late 0 (t0 + int gap))))) = snd (hd rs) \<and>
           snd (hd rs) + windowMs r \<le> snd (last rs)"
proof -
  have past: "\<forall>t \<in> set (requests r). t \<le> t0 + int gap"
    using assms(4) by fastforce
  from acquire_completes [OF assms(1,3,2) past, of late]
  obtain r1 t1 ws where a: "acquire r late 0 (t0 + int gap) = (Inr (), r1, t1, ws)"
    and t1: "t0 + int gap \<le> t1"
    and req: "requests r1 = filter (\<lambda>t. t1 - t < windowMs r) (requests r) @ [t1]"
    and m1: "maxRequests r1 = maxRequests r" and w1: "windowMs r1 = windowMs r"
    and l1: "length (requests r1) \<le> maxRequests r"
    by blast
  have inv1: "window_inv (windowMs r1) t1 1 (requests r1) t1"
    unfolding window_inv_def req
    by (intro conjI disjI2 exI [of _ "filter (\<lambda>t. t1 - t < windowMs r) (requests r)"] exI [of _ "[t1]"]) simp_all
  have N1: "0 < maxRequests r1" and len1: "length (requests r1) \<le> maxRequests r1"
    and W1: "windowMs r1 \<le> TIMEOUT_MAX"
    using assms(1,2) m1 w1 l1 by simp_all
  have past1: "\<forall>t \<in> set (requests r1). t \<le> t1"
    unfolding req using past t1 by fastforce
  have ne: "calls \<noteq> []" using assms(1,5) by auto
  from acquire_seq_keeps_window [OF N1 len1 inv1 W1 past1, of calls]
  obtain rs r' t' where s: "acquire_seq r1 t1 calls = (rs, r', t')"
    and l: "length rs = length calls" and oks: "\<forall>x \<in> set rs. fst x = Inr ()"
    and tl: "t' = snd (last rs)"
    and l': "length (requests r') \<le> maxRequests r1"
    and inv': "window_inv (windowMs r1) t1 (1 + length calls) (requests r') t'"
    using ne by blast
  have "t1 + windowMs r \<le> t'"
  proof (rule ccontr)
    assume "\<not> t1 + windowMs r \<le> t'"
    with inv' w1 obtain A B where "requests r' = A @ B" and "length B = 1 + length calls"
      by (auto simp: window_inv_def)
    then have "length (requests r') > maxRequests r" using assms(5) by simp
    with l' m1 show False by simp
  qed
  moreover have "rs \<noteq> []" using l ne by auto
  moreover have "acquire_seq r t0 ((gap, late) # calls) = ((Inr (), t1) # rs, r', t')"
    using a s by simp
  moreover have "last (requests r1) = t1" using req by simp
  ultimately show ?thesis using a l oks tl assms(5) by simp
qed

theorem acquire_waits_for_window_witness:
  "0 < maxRequests (new_RateLimiter 2 1000) \<and>
   windowMs (new_RateLimiter 2 1000) \<le> TIMEOUT_MAX \<and>
   length (requests (new_RateLimiter 2 1000)) \<le> maxRequests (new_RateLimiter 2 1000) \<and>
   requests (new_RateLimiter 2 1000) = [] \<and>
   length [(0::nat, \<lambda>d::nat. 0::nat), (0, \<lambda>d. 3)] = maxRequests (new_RateLimiter 2 1000) \<and>
   map snd (fst (acquire_seq (new_RateLimiter 2 1000) 5
                   [(0, \<lambda>d. 0), (0, \<lambda>d. 0), (0, \<lambda>d. 3)])) = [5, 5, 1008] \<and>
   map fst (fst (acquire_seq (new_RateLimiter 2 1000) 5
                   [(0, \<lambda>d. 0), (0, \<lambda>d. 0), (0, \<lambda>d. 3)])) = [Inr (), Inr (), Inr ()] \<and>
   5 + windowMs (new_RateLimiter 2 1000)
     \<le> snd (last (fst (acquire_seq (new_RateLimiter 2 1000) 5
                   [(0, \<lambda>d. 0), (0, \<lambda>d. 0), (0, \<lambda>d. 3)])))"
proof -
  let ?r = "new_RateLimiter 2 1000"
  have h1: "0 < maxRequests ?r" by (simp add: new_RateLimiter_def)
  have h2: "windowMs ?r \<le> TIMEOUT_MAX" by (simp add: new_RateLimiter_def TIMEOUT_MAX_def)
  have h3: "length (requests ?r) \<le> maxRequests ?r" by (simp add: new_RateLimiter_def)
  have h0: "requests ?r = []" by (simp add: new_RateLimiter_def)
  then have h4: "\<forall>t \<in> set (requests ?r). t \<le> 5" by simp
  have h5: "length [(0::nat, \<lambda>d::nat. 0::nat), (0, \<lambda>d. 3)] = maxRequests ?r"
    by (simp add: new_RateLimiter_def)
  have e: "map snd (fst (acquire_seq ?r 5 [(0, \<lambda>d. 0), (0, \<lambda>d. 0), (0, \<lambda>d. 3)])) = [5, 5, 1008]"
    by code_simp
  have f: "map fst (fst (acquire_seq ?r 5 [(0, \<lambda>d. 0), (0, \<lambda>d. 0), (0, \<lambda>d. 3)]))
             = [Inr (), Inr (), Inr ()]"
    by code_simp
  from acquire_waits_for_window [OF h1 h2 h3 h4 h5, of 0 "\<lambda>d. 0"]
  obtain rs r' t' where
    s: "acquire_seq ?r 5 [(0, \<lambda>d. 0), (0, \<lambda>d. 0), (0, \<lambda>d. 3)] = (rs, r', t')"
    and w: "snd (hd rs) + windowMs ?r \<le> snd (last rs)"
    by auto
  from e s have "snd (hd rs) = 5" by (cases rs) auto
  with w s have "5 + windowMs ?r
     \<le> snd (last (fst (acquire_seq ?r 5 [(0, \<lambda>d. 0), (0, \<lambda>d. 0), (0, \<lambda>d. 3)])))"
    by simp
  with h1 h2 h3 h0 h5 e f show ?thesis by blast
qed

text \<open>
  Claim C6 as stated fails for a window longer than the longest delay of a timer. With
  \<open>maxRequests = 1\<close> and \<open>windowMs = 3000000000\<close> the first call records the time 5; the
  second call finds the list full and asks for a timer of 3000000000 milliseconds,
  which fires at once, and so does each of the ten timers of its ten attempts (each
  one millisecond late here): the call fails with the recursion limit error at time
  15, long before the window is over. And with \<open>maxRequests = 0\<close> the single call
  finds the empty list full, its wait is \<open>NaN\<close>, its ten timers fire at once, and it
  fails in the same way without recording a timestamp.
\<close>

theorem acquire_fails_beyond_timer_range:
  "fst (acquire_seq (new_RateLimiter 1 3000000000) 5 [(0, \<lambda>d. 1), (0, \<lambda>d. 1)]) =
     [(Inr (), 5),
      (Inl (Err ''Error''
         ''Rate limiter recursion limit exceeded - possible DoS attempt or timing issue''), 15)] \<and>
   requests (fst (snd (acquire_seq (new_RateLimiter 1 3000000000) 5 [(0, \<lambda>d. 1), (0, \<lambda>d. 1)])))
     = [5] \<and>
   \<not> 5 + windowMs (new_RateLimiter 1 3000000000) \<le> 15 \<and>
   fst (acquire_seq (new_RateLimiter 0 1000) 5 [(0, \<lambda>d. 1)]) =
     [(Inl (Err ''Error''
         ''Rate limiter recursion limit exceeded - possible DoS attempt or timing issue''), 15)] \<and>
   requests (fst (snd (acquire_seq (new_RateLimiter 0 1000) 5 [(0, \<lambda>d. 1)]))) = []"
  by code_simp

section \<open>\<open>getSizeBytes\<close> and values that cannot be serialized\<close>

text \<open>
  Claim C7 says that \<open>getSizeBytes\<close> never throws, even when a cached value cannot be
  serialized, and counts a fixed estimate for such an entry. The version with sampling
  does so: for one entry with the key \<open>k\<close> whose \<open>JSON.stringify\<close> throws it returns
  \<open>2 + 1000\<close>. The version without sampling has no \<open>try\<close> around \<open>JSON.stringify\<close>, and
  the same cache makes it throw the TypeError.
\<close>

theorem getSizeBytes_throws_on_unserializable:
  "getSizeBytes (\<lambda>v. Inl (Err ''TypeError'' ''Converting circular structure to JSON''))
     (set_entry (new_LRUCache CACHE_MAX_SIZE CACHE_TTL_MINUTES) ''k'' (Some ()) 0)
     = Inl (Err ''TypeError'' ''Converting circular structure to JSON'') \<and>
   fst (getSizeBytes_sampled (\<lambda>v. Inl (Err ''TypeError'' ''Converting circular structure to JSON''))
     (set_entry (new_LRUCache CACHE_MAX_SIZE CACHE_TTL_MINUTES) ''k'' (Some ()) 0) 5)
     = 1002"
  by code_simp

section \<open>\<open>fetchWithRetry\<close> and client errors\<close>

lemma client_error_is_retried:
  assumes "attempt + 1 < maxRetries"
    and "fetch w url = (Responded response, w1)"
    and "status response \<noteq> 429" and "status response < 500" and "\<not> ok response"
  shows "fetch_loop w url maxRetries attempt lastError =
           fetch_loop (sleep w1 (Some (backoff attempt))) url maxRetries (attempt + 1)
             (Some (http_error response))"
proof -
  from assms(1) have a: "attempt < maxRetries" and b: "attempt \<noteq> maxRetries - 1" by simp_all
  show ?thesis
    using a b assms(2-5) by (simp add: fetch_loop.simps [of w])
qed

text \<open>
  Claim C2 says that a response with a 4xx status other than 429 makes \<open>fetchWithRetry\<close>
  fail at once, with no further fetch and no backoff wait. In the code the \<open>throw\<close> for
  a status that is not ok stands inside the \<open>try\<close> block, so the \<open>catch\<close> block of the
  loop receives it and retries: when every reply is a 404 and \<open>maxRetries\<close> is 3, the
  URL is fetched three times, with waits of 1000 and 2000 milliseconds in between,
  before the error is thrown.
\<close>

theorem fetchWithRetry_retries_404:
  "fst (fetchWithRetry (loaded\<lparr>network := (\<lambda>k url. (0, reply 404 ''Not Found'' None))\<rparr>)
          ''https://www.omdbapi.com/?apikey=abcd1234&i=tt0000001&plot=short'' MAX_RETRY_ATTEMPTS)
     = Inl (Err ''Error'' ''HTTP 404: Not Found'') \<and>
   length (fetched (snd (fetchWithRetry
          (loaded\<lparr>network := (\<lambda>k url. (0, reply 404 ''Not Found'' None))\<rparr>)
          ''https://www.omdbapi.com/?apikey=abcd1234&i=tt0000001&plot=short'' MAX_RETRY_ATTEMPTS)))
     = 3 \<and>
   waited (snd (fetchWithRetry (loaded\<lparr>network := (\<lambda>k url. (0, reply 404 ''Not Found'' None))\<rparr>)
          ''https://www.omdbapi.com/?apikey=abcd1234&i=tt0000001&plot=short'' MAX_RETRY_ATTEMPTS))
     = [Some 1000, Some 2000]"
  by code_simp

section \<open>The resolver: failed searches and the format of identifiers\<close>

text \<open>
  Claim C1 says that \<open>resolveIMDbId\<close> returns \<open>null\<close>, and never throws, when all three
  strategies fail to yield an identifier. Here the page holds no identifier, the local
  server is not configured, and the ratings provider answers the title search with
  \<open>Response: "False"\<close> and \<open>Error: "Movie not found!"\<close>: \<open>request\<close> throws that error,
  \<open>searchByTitle\<close> passes it on, and \<open>resolveIMDbId\<close>, which has no \<open>try\<close>, throws it to
  its caller.
\<close>

theorem resolveIMDbId_throws_when_search_fails:
  "findIMDbIdInPage
     (loaded\<lparr>apiKey := Some ''abcd1234'',
             network := (\<lambda>k url. (0, reply 200 ''OK''
                (Some (JsonBody (empty_object\<lparr>obj_Response := Some ''False'',
                                               obj_Error := Some ''Movie not found!''\<rparr>) []))))\<rparr>)
     = None \<and>
   \<not> isAvailable
     (loaded\<lparr>apiKey := Some ''abcd1234'',
             network := (\<lambda>k url. (0, reply 200 ''OK''
                (Some (JsonBody (empty_object\<lparr>obj_Response := Some ''False'',
                                               obj_Error := Some ''Movie not found!''\<rparr>) []))))\<rparr>) \<and>
   fst (resolveIMDbId
     (loaded\<lparr>apiKey := Some ''abcd1234'',
             network := (\<lambda>k url. (0, reply 200 ''OK''
                (Some (JsonBody (empty_object\<lparr>obj_Response := Some ''False'',
                                               obj_Error := Some ''Movie not found!''\<rparr>) []))))\<rparr>)
     \<lparr>title = ''No Such Film'', year = Some ''2010''\<rparr>)
     = Inl (Err ''Error'' ''Movie not found!'') \<and>
   fetched (snd (resolveIMDbId
     (loaded\<lparr>apiKey := Some ''abcd1234'',
             network := (\<lambda>k url. (0, reply 200 ''OK''
                (Some (JsonBody (empty_object\<lparr>obj_Response := Some ''False'',
                                               obj_Error := Some ''Movie not found!''\<rparr>) []))))\<rparr>)
     \<lparr>title = ''No Such Film'', year = Some ''2010''\<rparr>))
     = [''https://www.omdbapi.com/?apikey=abcd1234&t=No+Such+Film&type=movie&y=2010'']"
  by code_simp

text \<open>
  Claim C3 says that every identifier the resolver returns matches \<open>^tt\d{7,8}$\<close>, other
  strings being rejected by the page scan and by the extraction from the local
  server's metadata. Both take \<open>tt\<close> followed by any number of digits, in either case
  of the letters, and return it unchecked: a page that links to
  \<open>imdb.com/title/tt123/\<close> makes the resolver return \<open>tt123\<close>, and the guid
  \<open>imdb://tt12\<close> is extracted as \<open>tt12\<close>.
\<close>

theorem resolver_returns_unvalidated_id:
  "fst (resolveIMDbId
          (loaded\<lparr>innerHTML := ''<a href=\"https://www.imdb.com/title/tt123/\">IMDb</a>''\<rparr>)
          \<lparr>title = ''Inception'', year = Some ''2010''\<rparr>)
     = Inr (Some ''tt123'') \<and>
   \<not> IMDB_ID_test ''tt123'' \<and>
   extractIMDbId (empty_object\<lparr>Guid := Some [GuidObj (Some ''imdb://tt12'')]\<rparr>)
     = Inr (Some ''tt12'') \<and>
   \<not> IMDB_ID_test ''tt12''"
  by code_simp

end
